theory Spec2Isabelle
  imports Main "HOL-Library.Char_ord" "HOL-Library.List_Lexorder"
begin

section \<open>Exceptions\<close>

text \<open>
  Every \<open>throw\<close> and every rejected promise of the sources is a value of this type. The
  first five constructors are the classes the sources construct themselves (\<open>Error\<close>,
  also what a failed \<open>assert\<close> throws, and its subclasses), each with its message. A
  value thrown or rejected by the host (the WebGPU implementation) is an instance of none
  of the four subclasses, which belong to this code base: it is either an \<open>Error\<close> with a
  name and a message, or some other value. \<open>TypeError\<close> is what the language itself
  throws, here when a value that is not a function is called.
\<close>

datatype error =
    Error string
  | TestFailedButDeviceReusable string
  | FeaturesNotSupported string
  | TestOOMedShouldAttemptGC string
  | SkipTestCase string
  | HostError string string
  | HostValue
  | TypeError string

text \<open>
  The \<open>TypeError\<close> of a call whose callee, written \<open>callee\<close> in the source, is not a
  function. The wording of the message is the engine's; this is the one of V8.
\<close>

definition not_a_function :: "string \<Rightarrow> error" where
  "not_a_function callee = TypeError (callee @ '' is not a function'')"

section \<open>Strings\<close>

text \<open>The decimal digits of a non-negative integer, as template literals print it.\<close>

definition digit :: "nat \<Rightarrow> char" where
  "digit d = ''0123456789'' ! d"

fun string_of_nat :: "nat \<Rightarrow> string" where
  "string_of_nat n =
     (if n < 10 then [digit n] else string_of_nat (n div 10) @ [digit (n mod 10)])"

declare string_of_nat.simps [simp del]

text \<open>\<open>Array.prototype.join\<close>.\<close>

fun join :: "string \<Rightarrow> string list \<Rightarrow> string" where
  "join sep [] = []"
| "join sep [x] = x"
| "join sep (x # y # ys) = x @ sep @ join sep (y # ys)"

section \<open>Parameter records (src/framework/params/index.ts)\<close>

text \<open>
  A parameter value (\<open>ParamArgument = any\<close>) is a JavaScript value: a primitive, or a
  reference to an array or a plain object. Parameter values are data (numbers, strings,
  booleans and nested structures), so no value is a function. Numbers are modelled by
  their numeric value, with \<open>NaN\<close> kept apart because it is the one value that is not
  \<open>===\<close> to itself (\<open>+0\<close> and \<open>-0\<close> are \<open>===\<close>, so one value stands for both).
\<close>

datatype js_number = NaN | Num int

datatype ParamArgument =
    Undefined
  | Null
  | Boolean bool
  | Number js_number
  | String string
  | Object nat

text \<open>The operator \<open>===\<close>: primitives by value, objects by reference, \<open>NaN\<close> never.\<close>

fun strict_eq :: "ParamArgument \<Rightarrow> ParamArgument \<Rightarrow> bool" where
  "strict_eq (Number NaN) b = False"
| "strict_eq a (Number NaN) = False"
| "strict_eq a b = (a = b)"

text \<open>
  A \<open>ParamsSpec\<close> is a plain object, with \<open>Object.prototype\<close> as its prototype: its own
  enumerable string-keyed data properties, in the order \<open>Object.keys\<close> lists them.
\<close>

type_synonym ParamsSpec = "(string \<times> ParamArgument) list"

definition Object_keys :: "ParamsSpec \<Rightarrow> string list" where
  "Object_keys x = map fst x"

text \<open>Whether the record has an own property of that name.\<close>

definition has_own_key :: "ParamsSpec \<Rightarrow> string \<Rightarrow> bool" where
  "has_own_key x k = (k \<in> set (Object_keys x))"

text \<open>
  The call \<open>x.hasOwnProperty(k)\<close>, where \<open>receiver\<close> is the text of \<open>x\<close> in the source. The
  method is looked up on the record itself. A record without an own property named
  \<open>hasOwnProperty\<close> inherits the method of \<open>Object.prototype\<close>, which tells whether the
  record has an own property \<open>k\<close>. A record with such a property hides that method by a
  parameter value; a parameter value is not a function, and calling it throws
  \<open>TypeError\<close>.
\<close>

definition hasOwnProperty :: "string \<Rightarrow> ParamsSpec \<Rightarrow> string \<Rightarrow> error + bool" where
  "hasOwnProperty receiver x k =
     (if has_own_key x ''hasOwnProperty''
      then Inl (not_a_function (receiver @ ''.hasOwnProperty''))
      else Inr (has_own_key x k))"

text \<open>
  Property read \<open>x[k]\<close> of an own property: its value. The sources read \<open>x[k]\<close> only
  where \<open>k\<close> is an own key of \<open>x\<close> (a key taken from \<open>Object.keys(x)\<close>, or one for which
  \<open>x.hasOwnProperty(k)\<close> has just returned true); for any other key, where the read would
  go on to the prototype, the value here is \<open>undefined\<close>.
\<close>

definition get_prop :: "ParamsSpec \<Rightarrow> string \<Rightarrow> ParamArgument" where
  "get_prop x k = (case map_of x k of Some v \<Rightarrow> v | None \<Rightarrow> Undefined)"

text \<open>
  \<open>paramsEquals\<close> and \<open>paramsSupersets\<close> receive references (or \<open>null\<close>, here
  \<open>None\<close>); \<open>x === y\<close> compares the references. The object store maps a reference to the
  properties of the object it denotes.
\<close>

type_synonym object_store = "nat \<Rightarrow> ParamsSpec"

text \<open>
  The first loop of \<open>paramsEquals\<close>: \<open>for (const xk of Object.keys(x))\<close>. The result
  is \<open>Inr False\<close> when the loop body executes \<open>return false\<close>, \<open>Inr True\<close> when the loop
  runs to its end, and \<open>Inl\<close> the exception when the body throws.
\<close>

fun paramsEquals_loop1 :: "ParamsSpec \<Rightarrow> ParamsSpec \<Rightarrow> string list \<Rightarrow> error + bool" where
  "paramsEquals_loop1 x y [] = Inr True"
| "paramsEquals_loop1 x y (xk # ks) =
     (case hasOwnProperty ''y'' y xk of
        Inl ex \<Rightarrow> Inl ex
      | Inr has \<Rightarrow>
          if \<not> has then Inr False
          else if \<not> strict_eq (get_prop x xk) (get_prop y xk) then Inr False
          else paramsEquals_loop1 x y ks)"

text \<open>The second loop: \<open>for (const yk of Object.keys(y))\<close>.\<close>

fun paramsEquals_loop2 :: "ParamsSpec \<Rightarrow> string list \<Rightarrow> error + bool" where
  "paramsEquals_loop2 x [] = Inr True"
| "paramsEquals_loop2 x (yk # ks) =
     (case hasOwnProperty ''x'' x yk of
        Inl ex \<Rightarrow> Inl ex
      | Inr has \<Rightarrow> if \<not> has then Inr False else paramsEquals_loop2 x ks)"

definition paramsEquals :: "object_store \<Rightarrow> nat option \<Rightarrow> nat option \<Rightarrow> error + bool" where
  "paramsEquals store x y =
     (if x = y then Inr True
      else case (x, y) of
        (None, _) \<Rightarrow> Inr False
      | (_, None) \<Rightarrow> Inr False
      | (Some xr, Some yr) \<Rightarrow>
          (case paramsEquals_loop1 (store xr) (store yr) (Object_keys (store xr)) of
             Inl ex \<Rightarrow> Inl ex
           | Inr False \<Rightarrow> Inr False
           | Inr True \<Rightarrow>
               (case paramsEquals_loop2 (store xr) (Object_keys (store yr)) of
                  Inl ex \<Rightarrow> Inl ex
                | Inr False \<Rightarrow> Inr False
                | Inr True \<Rightarrow> Inr True)))"

text \<open>
  The loop of \<open>paramsSupersets\<close>: \<open>for (const k of Object.keys(sub))\<close>. The operator
  \<open>||\<close> reads \<open>sup[k]\<close> and \<open>sub[k]\<close> only when \<open>sup.hasOwnProperty(k)\<close> has returned true.
\<close>

fun paramsSupersets_loop :: "ParamsSpec \<Rightarrow> ParamsSpec \<Rightarrow> string list \<Rightarrow> error + bool" where
  "paramsSupersets_loop sup_spec sub_spec [] = Inr True"
| "paramsSupersets_loop sup_spec sub_spec (k # ks) =
     (case hasOwnProperty ''sup'' sup_spec k of
        Inl ex \<Rightarrow> Inl ex
      | Inr has \<Rightarrow>
          if \<not> has \<or> \<not> strict_eq (get_prop sup_spec k) (get_prop sub_spec k) then Inr False
          else paramsSupersets_loop sup_spec sub_spec ks)"

definition paramsSupersets :: "object_store \<Rightarrow> nat option \<Rightarrow> nat option \<Rightarrow> error + bool" where
  "paramsSupersets store sup_ref sub_ref =
     (case sub_ref of
        None \<Rightarrow> Inr True
      | Some subr \<Rightarrow>
          (case sup_ref of
             None \<Rightarrow> Inr False
           | Some supr \<Rightarrow>
               paramsSupersets_loop (store supr) (store subr) (Object_keys (store subr))))"

subsection \<open>The order of the keys of an object\<close>

text \<open>
  \<open>Object.keys\<close> lists the keys that are array indices first, in ascending numeric
  order, and then the other keys in the order in which the properties were created. An
  array index is the decimal numeral, without sign and without leading zero, of an
  integer below 4294967295 (two to the power 32, less one): a numeral of fewer than ten
  digits, or one of ten digits that comes before \<open>4294967295\<close> in the order of strings.
\<close>

definition digit_value :: "char \<Rightarrow> nat" where
  "digit_value c = length (takeWhile (\<lambda>d. d \<noteq> c) ''0123456789'')"

definition nat_of_string :: "string \<Rightarrow> nat" where
  "nat_of_string s = foldl (\<lambda>n c. 10 * n + digit_value c) 0 s"

definition array_index :: "string \<Rightarrow> nat option" where
  "array_index s =
     (if s \<noteq> [] \<and> list_all (\<lambda>c. c \<in> set ''0123456789'') s \<and>
         (s = ''0'' \<or> hd s \<noteq> CHR ''0'') \<and>
         (length s < 10 \<or> (length s = 10 \<and> s < ''4294967295''))
      then Some (nat_of_string s) else None)"

text \<open>The properties of an object, given in the order of their creation, as \<open>Object.keys\<close> orders them.\<close>

definition own_property_order :: "ParamsSpec \<Rightarrow> ParamsSpec" where
  "own_property_order created =
     sort_key (\<lambda>(k, v). case array_index k of Some i \<Rightarrow> i | None \<Rightarrow> 0)
       (filter (\<lambda>(k, v). array_index k \<noteq> None) created) @
     filter (\<lambda>(k, v). array_index k = None) created"

section \<open>Tagged variants (src/framework/params/variant.ts)\<close>

text \<open>
  \<open>pvariant\<close> is a generator. Running a generator to its end gives the records it
  yielded, in order, and the exception that ended it, if one did; a consumer sees the
  yielded records before it sees the exception. The sub-iterables are finite, restartable
  sequences of records, here lists.
\<close>

type_synonym 'a iteration = "'a list \<times> error option"

definition collision_error :: error where
  "collision_error = Error ''pvariant entry has a key that collides with the pvariant key''"

text \<open>
  The object literal \<open>{ [key]: value, ...p }\<close>, built only when \<open>p\<close> has no property
  \<open>key\<close>: the property \<open>key\<close> is created first and the properties of \<open>p\<close> after it, in the
  order of \<open>p\<close>.
\<close>

definition tagged :: "string \<Rightarrow> ParamArgument \<Rightarrow> ParamsSpec \<Rightarrow> ParamsSpec" where
  "tagged key value p = own_property_order ((key, value) # p)"

text \<open>The inner loop \<open>for (const p of params)\<close>.\<close>

fun pvariant_inner :: "string \<Rightarrow> ParamArgument \<Rightarrow> ParamsSpec list \<Rightarrow> ParamsSpec iteration" where
  "pvariant_inner key value [] = ([], None)"
| "pvariant_inner key value (p # ps) =
     (case hasOwnProperty ''p'' p key of
        Inl ex \<Rightarrow> ([], Some ex)
      | Inr has \<Rightarrow>
          if has then ([], Some collision_error)
          else case pvariant_inner key value ps of
                 (ys, ex) \<Rightarrow> (tagged key value p # ys, ex))"

text \<open>The outer loop \<open>for (const [value, params] of variants)\<close>.\<close>

fun pvariant :: "string \<Rightarrow> (ParamArgument \<times> ParamsSpec list) list \<Rightarrow> ParamsSpec iteration" where
  "pvariant key [] = ([], None)"
| "pvariant key ((value, params) # variants) =
     (case pvariant_inner key value params of
        (ys, Some ex) \<Rightarrow> (ys, Some ex)
      | (ys, None) \<Rightarrow> (case pvariant key variants of (zs, ex) \<Rightarrow> (ys @ zs, ex)))"

text \<open>
  The pairs (tag value, sub-record) in the order the two nested loops visit them; used to
  state what \<open>pvariant\<close> yields.
\<close>

definition variant_entries ::
  "(ParamArgument \<times> ParamsSpec list) list \<Rightarrow> (ParamArgument \<times> ParamsSpec) list" where
  "variant_entries variants = concat (map (\<lambda>(value, params). map (Pair value) params) variants)"

text \<open>
  The records at which the iteration stops, and the exception it stops with there: the
  check \<open>p.hasOwnProperty(key)\<close> throws on a record that has an own property named
  \<open>hasOwnProperty\<close>, and the collision error is thrown on another record that has the key.
\<close>

definition stops :: "string \<Rightarrow> ParamsSpec \<Rightarrow> bool" where
  "stops key p = (has_own_key p ''hasOwnProperty'' \<or> has_own_key p key)"

definition stop_error :: "ParamsSpec \<Rightarrow> error" where
  "stop_error p =
     (if has_own_key p ''hasOwnProperty'' then not_a_function ''p.hasOwnProperty''
      else collision_error)"

section \<open>The checklist tool (src/common/tools/checklist.ts)\<close>

datatype Ordering = Equal | StrictSubset | StrictSuperset | Unordered

text \<open>
  The tool works on parsed queries through three collaborators that are not part of the
  tool: the comparison of two queries (\<open>compareQueries\<close>), the printing of a query and
  the suite it belongs to (\<open>TestQuery\<close>), and the loader that lists the cases of a suite
  as queries. They are parameters here, over any type \<open>'q\<close> of queries.
\<close>

record 'q collaborators =
  compareQueries :: "'q \<Rightarrow> 'q \<Rightarrow> Ordering"
  suite :: "'q \<Rightarrow> string"
  toString :: "'q \<Rightarrow> string"
  loadCases :: "string \<Rightarrow> 'q list"

text \<open>
  What a run of the process does that can be seen from outside: the messages passed to
  \<open>console.log\<close>, in order, and the status given to \<open>process.exit\<close>, if it was called.
\<close>

record process =
  stdout :: "string list"
  exit_status :: "nat option"

text \<open>
  An entry \<open>{ query, count }\<close> of a suite's list. Each call of \<open>parseQuery\<close> makes a new
  object, and the tool compares queries with \<open>!==\<close>, so an entry carries the identity of
  its query object: the position of the line it was parsed from.
\<close>

record 'q entry =
  ident :: nat
  query :: 'q
  count :: nat

text \<open>\<open>die\<close> logs its message and ends the process with status 1; nothing runs after it.\<close>

definition die :: "string list \<Rightarrow> string \<Rightarrow> process" where
  "die out message = \<lparr>stdout = out @ [message], exit_status = Some 1\<rparr>"

definition overlap_message :: "'q collaborators \<Rightarrow> 'q \<Rightarrow> 'q \<Rightarrow> string" where
  "overlap_message c q1 q2 =
     ''  Overlapping queries in list:'' @ [CHR 0x0A] @ ''    '' @ toString c q1 @
     [CHR 0x0A] @ ''    '' @ toString c q2"

definition no_query_message :: "'q collaborators \<Rightarrow> 'q \<Rightarrow> string" where
  "no_query_message c testcase = ''  No query found for case: '' @ toString c testcase"

text \<open>
  Building \<open>queriesBySuite\<close>, a \<open>Map\<close> in insertion order: the query is pushed onto the
  list of its suite, and a suite seen for the first time is added at the end.
\<close>

fun push_query :: "(string \<times> 'q entry list) list \<Rightarrow> string \<Rightarrow> 'q entry \<Rightarrow> (string \<times> 'q entry list) list" where
  "push_query [] s e = [(s, [e])]"
| "push_query ((s', es) # m) s e =
     (if s' = s then (s', es @ [e]) # m else (s', es) # push_query m s e)"

fun group_queries :: "'q collaborators \<Rightarrow> (string \<times> 'q entry list) list \<Rightarrow> nat \<Rightarrow> 'q list \<Rightarrow> (string \<times> 'q entry list) list" where
  "group_queries c m i [] = m"
| "group_queries c m i (q # qs) =
     group_queries c (push_query m (suite c q) \<lparr>ident = i, query = q, count = 0\<rparr>) (Suc i) qs"

text \<open>
  The overlap check, two nested loops over the same list. The result is the message of
  the first call of \<open>die\<close>, or \<open>None\<close> when the loops run to their end.
\<close>

fun overlaps_inner :: "'q collaborators \<Rightarrow> 'q entry \<Rightarrow> 'q entry list \<Rightarrow> string option" where
  "overlaps_inner c e1 [] = None"
| "overlaps_inner c e1 (e2 # es) =
     (if ident e1 \<noteq> ident e2 \<and> compareQueries c (query e1) (query e2) \<noteq> Unordered
      then Some (overlap_message c (query e1) (query e2))
      else overlaps_inner c e1 es)"

fun overlaps_outer :: "'q collaborators \<Rightarrow> 'q entry list \<Rightarrow> 'q entry list \<Rightarrow> string option" where
  "overlaps_outer c [] queries = None"
| "overlaps_outer c (e1 # es) queries =
     (case overlaps_inner c e1 queries of
        Some message \<Rightarrow> Some message
      | None \<Rightarrow> overlaps_outer c es queries)"

text \<open>
  The inner loop of \<open>caseloop\<close>: the first query that covers the case has its count
  incremented (\<open>continue caseloop\<close>); \<open>None\<close> when no query covers it.
\<close>

fun count_case :: "'q collaborators \<Rightarrow> 'q \<Rightarrow> 'q entry list \<Rightarrow> 'q entry list option" where
  "count_case c testcase [] = None"
| "count_case c testcase (q # qs) =
     (let comparison = compareQueries c (query q) testcase in
      if comparison = StrictSuperset \<or> comparison = Equal
      then Some (q\<lparr>count := count q + 1\<rparr> # qs)
      else map_option ((#) q) (count_case c testcase qs))"

text \<open>\<open>caseloop\<close>: the message of \<open>die\<close> for the first uncovered case, or the counted entries.\<close>

fun caseloop :: "'q collaborators \<Rightarrow> 'q list \<Rightarrow> 'q entry list \<Rightarrow> string + 'q entry list" where
  "caseloop c [] queries = Inr queries"
| "caseloop c (testcase # testcases) queries =
     (case count_case c testcase queries of
        None \<Rightarrow> Inl (no_query_message c testcase)
      | Some queries' \<Rightarrow> caseloop c testcases queries')"

text \<open>The last loop of a suite: the queries that matched no case are listed.\<close>

definition unmatched_lines :: "'q collaborators \<Rightarrow> 'q entry list \<Rightarrow> string list" where
  "unmatched_lines c queries =
     map (\<lambda>e. ''    '' @ toString c (query e)) (filter (\<lambda>e. count e = 0) queries)"

text \<open>
  The body of the loop over the suites, from the output so far: \<open>Inl\<close> is the process
  ended by \<open>die\<close>, \<open>Inr\<close> the output when the body runs to its end.
\<close>

definition check_suite :: "'q collaborators \<Rightarrow> string list \<Rightarrow> string \<Rightarrow> 'q entry list \<Rightarrow> process + string list" where
  "check_suite c out0 s queries =
     (let out1 = out0 @ [''Suite '' @ [CHR 0x22] @ s @ [CHR 0x22] @ ''...''];
          testcases = loadCases c s;
          out2 = out1 @ [''  Found '' @ string_of_nat (length testcases) @ '' cases.''];
          out3 = out2 @ [''  Checking overlaps between '' @ string_of_nat (length queries) @
                         '' queries...'']
      in case overlaps_outer c queries queries of
           Some message \<Rightarrow> Inl (die out3 message)
         | None \<Rightarrow>
             (let out4 = out3 @ [''  Checking against suite contents...'']
              in case caseloop c testcases queries of
                   Inl message \<Rightarrow> Inl (die out4 message)
                 | Inr queries' \<Rightarrow>
                     Inr (out4 @ [''  Checking for queries that didn't match any cases...'']
                          @ unmatched_lines c queries')))"

fun check_suites :: "'q collaborators \<Rightarrow> string list \<Rightarrow> (string \<times> 'q entry list) list \<Rightarrow> process" where
  "check_suites c out [] = \<lparr>stdout = out, exit_status = None\<rparr>"
| "check_suites c out ((s, queries) # m) =
     (case check_suite c out s queries of
        Inl p \<Rightarrow> p
      | Inr out' \<Rightarrow> check_suites c out' m)"

text \<open>
  The tool, from the parsed queries \<open>allQueries\<close> on (reading the file and parsing its
  lines come before and report no violation).
\<close>

definition checklist :: "'q collaborators \<Rightarrow> 'q list \<Rightarrow> process" where
  "checklist c allQueries =
     (let queriesBySuite = group_queries c [] 0 allQueries;
          out = [''Loading queries...'',
                 ''  Found suites: '' @ join '' '' (map fst queriesBySuite)]
      in check_suites c out queriesBySuite)"

text \<open>
  The messages that report a violation are those \<open>die\<close> is called with; they are the only
  messages of the tool that begin with two spaces and the letter O or N.
\<close>

definition is_violation_report :: "string \<Rightarrow> bool" where
  "is_violation_report message = (take 3 message = ''  O'' \<or> take 3 message = ''  N'')"

text \<open>
  The violations of a list of queries, as the tool looks for them: two distinct entries of
  a suite that are not unordered, and a case of a suite that no entry of the suite covers.
\<close>

definition overlapping :: "'q collaborators \<Rightarrow> 'q entry list \<Rightarrow> bool" where
  "overlapping c queries =
     (\<exists>e1 \<in> set queries. \<exists>e2 \<in> set queries.
        ident e1 \<noteq> ident e2 \<and> compareQueries c (query e1) (query e2) \<noteq> Unordered)"

definition covers :: "'q collaborators \<Rightarrow> 'q entry list \<Rightarrow> 'q \<Rightarrow> bool" where
  "covers c queries testcase =
     (\<exists>e \<in> set queries. compareQueries c (query e) testcase \<in> {StrictSuperset, Equal})"

definition suite_violation :: "'q collaborators \<Rightarrow> string \<Rightarrow> 'q entry list \<Rightarrow> bool" where
  "suite_violation c s queries =
     (overlapping c queries \<or> (\<exists>testcase \<in> set (loadCases c s). \<not> covers c queries testcase))"

definition has_violation :: "'q collaborators \<Rightarrow> 'q list \<Rightarrow> bool" where
  "has_violation c allQueries =
     (\<exists>(s, queries) \<in> set (group_queries c [] 0 allQueries).
        suite_violation c s queries)"

text \<open>The violation reports among the messages of an output.\<close>

definition reports :: "string list \<Rightarrow> string list" where
  "reports out = filter is_violation_report out"

text \<open>
  Modelled from the spec: collaborators for a worked example, with queries written as
  their strings. The comparison is the part of the ordering the example needs: a query
  compared with a structurally equal query is \<open>Equal\<close> (section 4.3, "Ties and
  self-comparison"), and the queries \<open>s:a:*\<close> and \<open>s:b:*\<close>, on different files, are
  \<open>Unordered\<close>. The suite of a query is the text before its first colon, and the loader
  finds no cases.
\<close>

definition example_collaborators :: "string collaborators" where
  "example_collaborators =
     \<lparr>compareQueries = (\<lambda>a b. if a = b then Equal else Unordered),
      suite = takeWhile (\<lambda>ch. ch \<noteq> CHR '':''),
      toString = (\<lambda>q. q),
      loadCases = (\<lambda>s. [])\<rparr>"

section \<open>The device pool (src/webgpu/util/device_pool.ts)\<close>

subsection \<open>Helpers of common/util/util.js\<close>

text \<open>
  Modelled from the spec: the three helpers the pool imports from \<open>common/util/util.js\<close>,
  which is not among the sources. \<open>assert(condition, msg)\<close> throws \<open>Error(msg)\<close> when the
  condition is false, with an empty message when none is given. \<open>assertReject(p, msg)\<close>
  awaits \<open>p\<close> and fails with \<open>Error(msg)\<close> when \<open>p\<close> resolves.
  \<open>raceWithRejectOnTimeout(p, ms, msg)\<close> settles as \<open>p\<close> does when \<open>p\<close> settles within the
  time limit and rejects with an error carrying \<open>msg\<close> otherwise (section 4.4: "a bounded
  timeout on the asynchronous drain").
\<close>

definition assert :: "bool \<Rightarrow> string \<Rightarrow> error option" where
  "assert condition msg = (if condition then None else Some (Error msg))"

text \<open>
  The outcome of awaiting a promise of the host. Where the code awaits without a time
  limit, the promise resolves or rejects (\<open>settled\<close>); under \<open>raceWithRejectOnTimeout\<close>
  it can also be still pending when the time limit is reached (\<open>awaited\<close>).
\<close>

datatype 'a settled = Resolved 'a | Rejected error

datatype 'a awaited = Resolves 'a | Rejects error | Pending

subsection \<open>Descriptors and their canonical key\<close>

record UncanonicalizedDeviceDescriptor =
  requiredFeatures :: "string list option"
  requiredLimits :: "(string \<times> nat) list option"

text \<open>The canonical descriptor; its third field \<open>defaultQueue\<close> is always \<open>{}\<close>.\<close>

record CanonicalDeviceDescriptor =
  requiredFeatures' :: "string list"
  requiredLimits' :: "(string \<times> nat) list"

text \<open>
  \<open>kLimits\<close> and \<open>kLimitInfo\<close> come from \<open>capability_info.js\<close>, which is not among the
  sources: the list of limit names and the default of each limit are parameters.
\<close>

record capability_info =
  kLimits :: "string list"
  kLimitInfo_default :: "string \<Rightarrow> nat"

text \<open>\<open>Array.from(new Set(xs))\<close>: the elements in the order of their first occurrence.\<close>

definition Set_values :: "'a list \<Rightarrow> 'a list" where
  "Set_values xs = foldl (\<lambda>acc x. if x \<in> set acc then acc else acc @ [x]) [] xs"

text \<open>
  \<open>JSON.stringify\<close> of the canonical descriptor. Feature and limit names are identifiers
  of the WebGPU interface (letters, digits, hyphens), which need no escape inside the
  quotes; limit values are unsigned integers.
\<close>

definition JSON_string :: "string \<Rightarrow> string" where
  "JSON_string s = [CHR 0x22] @ s @ [CHR 0x22]"

definition JSON_stringify :: "CanonicalDeviceDescriptor \<Rightarrow> string" where
  "JSON_stringify d =
     ''{'' @ JSON_string ''requiredFeatures'' @ '':['' @
       join '','' (map JSON_string (requiredFeatures' d)) @ ''],'' @
     JSON_string ''requiredLimits'' @ '':{'' @
       join '','' (map (\<lambda>(limit, v). JSON_string limit @ '':'' @ string_of_nat v)
                   (requiredLimits' d)) @ ''},'' @
     JSON_string ''defaultQueue'' @ '':{}}''"

text \<open>\<open>JSON.stringify(descriptor)\<close> inside a template literal; \<open>undefined\<close> prints as such.\<close>

definition JSON_stringify_opt :: "CanonicalDeviceDescriptor option \<Rightarrow> string" where
  "JSON_stringify_opt d = (case d of None \<Rightarrow> ''undefined'' | Some c \<Rightarrow> JSON_stringify c)"

text \<open>The loop \<open>for (const limit of kLimits)\<close> that fills \<open>limitsCanonicalized\<close>.\<close>

fun canonicalize_limits :: "capability_info \<Rightarrow> (string \<times> nat) list \<Rightarrow> string list \<Rightarrow> (string \<times> nat) list" where
  "canonicalize_limits ci requested [] = []"
| "canonicalize_limits ci requested (limit # limits) =
     (let requestedValue = map_of requested limit;
          defaultValue = kLimitInfo_default ci limit
      in case requestedValue of
           None \<Rightarrow> canonicalize_limits ci requested limits
         | Some v \<Rightarrow>
             if v \<noteq> defaultValue then (limit, v) # canonicalize_limits ci requested limits
             else canonicalize_limits ci requested limits)"

definition canonicalizeDescriptor ::
  "capability_info \<Rightarrow> UncanonicalizedDeviceDescriptor option \<Rightarrow>
   CanonicalDeviceDescriptor option \<times> string" where
  "canonicalizeDescriptor ci desc =
     (case desc of
        None \<Rightarrow> (None, '''')
      | Some d \<Rightarrow>
          (let featuresCanonicalized =
                 (case requiredFeatures d of
                    Some fs \<Rightarrow> sort (Set_values fs)
                  | None \<Rightarrow> []);
               limitsCanonicalized =
                 (case requiredLimits d of
                    Some ls \<Rightarrow> canonicalize_limits ci ls (kLimits ci)
                  | None \<Rightarrow> []);
               descriptorCanonicalized =
                 \<lparr>requiredFeatures' = featuresCanonicalized,
                  requiredLimits' = limitsCanonicalized\<rparr>
           in (Some descriptorCanonicalized, JSON_stringify descriptorCanonicalized)))"

subsection \<open>Holders and the object store\<close>

datatype DeviceHolderState = free | reserved | acquired

datatype GPUDeviceLostReason = unknown | destroyed

record GPUDeviceLostInfo =
  reason :: GPUDeviceLostReason
  message :: string

text \<open>A \<open>GPUDevice\<close> is an object of the host; \<open>device\<close> holds its identity.\<close>

record DeviceHolder =
  device :: nat
  state :: DeviceHolderState
  lostInfo :: "GPUDeviceLostInfo option"
  expectedLostReason :: "GPUDeviceLostReason option"

text \<open>
  Holders are shared between the pool and the tests that reserved them, and both write
  to them, so they live in a store: a reference to a holder is its index in \<open>objects\<close>.
  The store also keeps what the pool does to the host: the devices on which \<open>destroy()\<close>
  was called, the number of calls of \<open>DeviceHolder.create\<close>, and the number of devices
  the host has handed out (each \<open>requestDevice\<close> that succeeds returns a new object).
\<close>

record store =
  objects :: "DeviceHolder list"
  destroy_calls :: "nat list"
  create_calls :: nat
  devices_created :: nat

definition set_holder :: "store \<Rightarrow> nat \<Rightarrow> DeviceHolder \<Rightarrow> store" where
  "set_holder h r v = h\<lparr>objects := (objects h)[r := v]\<rparr>"

subsection \<open>The host\<close>

text \<open>
  What the host answers during one call of \<open>DeviceHolder.create\<close>: whether \<open>getGPU()\<close>
  throws, how \<open>requestAdapter()\<close> settles (\<open>None\<close> is \<open>null\<close>), and for the adapter its
  features and how \<open>requestDevice(descriptor)\<close> settles (\<open>True\<close> is a new device,
  \<open>False\<close> is \<open>null\<close>). Both promises are awaited without a time limit, so a host
  that leaves one of them pending for ever is a host on which \<open>create\<close>, and with it
  \<open>reserve\<close>, never returns; the answers here are those of a host on which it does.
\<close>

record GPUAdapter =
  features :: "string list"
  requestDevice :: "CanonicalDeviceDescriptor option \<Rightarrow> bool settled"

record create_host =
  getGPU_throws :: "error option"
  requestAdapter :: "GPUAdapter option settled"

datatype GPUError = GPUValidationError string | GPUOutOfMemoryError | GPUInternalError

text \<open>
  What the host answers during one call of \<open>DeviceHolder.release\<close>: how each of the three
  \<open>popErrorScope()\<close> promises and the \<open>onSubmittedWorkDone()\<close> promise settle
  (\<open>onSubmittedWorkDone = None\<close> when the queue has no such method), and whether the
  \<open>device.lost\<close> promise resolves while one of these four awaits is pending: \<open>Some (n, info)\<close>
  when it does so during the \<open>n\<close>-th await (1 to 4), which runs the callback of the
  constructor, \<open>this.lostInfo = ev\<close>. \<open>has_destroy\<close> tells whether \<open>'destroy' in device\<close>
  holds.
\<close>

record release_host =
  popErrorScope1 :: "GPUError option awaited"
  popErrorScope2 :: "GPUError option awaited"
  onSubmittedWorkDone :: "unit awaited option"
  popErrorScope3 :: "GPUError option awaited"
  device_lost :: "(nat \<times> GPUDeviceLostInfo) option"
  has_destroy :: bool

subsection \<open>DeviceHolder\<close>

definition supportsFeature :: "GPUAdapter \<Rightarrow> CanonicalDeviceDescriptor option \<Rightarrow> bool" where
  "supportsFeature adapter descriptor =
     (case descriptor of
        None \<Rightarrow> True
      | Some d \<Rightarrow> list_all (\<lambda>feature. feature \<in> set (features adapter)) (requiredFeatures' d))"

text \<open>
  \<open>DeviceHolder.create\<close>. The host's answers for this call are those numbered by the calls
  made so far. A new holder is \<open>free\<close>, with neither \<open>lostInfo\<close> nor \<open>expectedLostReason\<close>.
\<close>

definition DeviceHolder_create ::
  "(nat \<Rightarrow> create_host) \<Rightarrow> store \<Rightarrow> CanonicalDeviceDescriptor option \<Rightarrow> (error + nat) \<times> store" where
  "DeviceHolder_create host h descriptor =
     (let gpu = host (create_calls h);
          h1 = h\<lparr>create_calls := create_calls h + 1\<rparr>
      in case getGPU_throws gpu of
           Some ex \<Rightarrow> (Inl ex, h1)
         | None \<Rightarrow>
             (case requestAdapter gpu of
                Rejected ex \<Rightarrow> (Inl ex, h1)
              | Resolved None \<Rightarrow> (Inl (Error ''requestAdapter returned null''), h1)
              | Resolved (Some adapter) \<Rightarrow>
                  if \<not> supportsFeature adapter descriptor
                  then (Inl (FeaturesNotSupported ''One or more features are not supported''), h1)
                  else
                    (case requestDevice adapter descriptor of
                       Rejected ex \<Rightarrow> (Inl ex, h1)
                     | Resolved False \<Rightarrow> (Inl (Error ''requestDevice returned null''), h1)
                     | Resolved True \<Rightarrow>
                         (Inr (length (objects h1)),
                          h1\<lparr>objects := objects h1 @
                                 [\<lparr>device = devices_created h1, state = free,
                                   lostInfo = None, expectedLostReason = None\<rparr>],
                              devices_created := devices_created h1 + 1\<rparr>))))"

text \<open>\<open>acquire()\<close>: the two \<open>pushErrorScope\<close> calls leave no trace in the store.\<close>

definition acquire :: "store \<Rightarrow> nat \<Rightarrow> (error + nat) \<times> store" where
  "acquire h this =
     (case assert (state (objects h ! this) = reserved) '''' of
        Some ex \<Rightarrow> (Inl ex, h)
      | None \<Rightarrow>
          (Inr (device (objects h ! this)),
           set_holder h this ((objects h ! this)\<lparr>state := acquired\<rparr>)))"

definition expectDeviceLost :: "store \<Rightarrow> nat \<Rightarrow> GPUDeviceLostReason \<Rightarrow> store" where
  "expectDeviceLost h this r =
     set_holder h this ((objects h ! this)\<lparr>expectedLostReason := Some r\<rparr>)"

text \<open>The callback \<open>ev => { this.lostInfo = ev; }\<close>, run when \<open>device.lost\<close> resolves.\<close>

definition on_device_lost :: "store \<Rightarrow> nat \<Rightarrow> GPUDeviceLostInfo \<Rightarrow> store" where
  "on_device_lost h this ev = set_holder h this ((objects h ! this)\<lparr>lostInfo := Some ev\<rparr>)"

text \<open>
  The value of \<open>this.lostInfo\<close> once the \<open>n\<close>-th await of \<open>release\<close> has been passed or has
  been found pending, from its value before.
\<close>

definition lost_during :: "release_host \<Rightarrow> nat \<Rightarrow> GPUDeviceLostInfo option \<Rightarrow> GPUDeviceLostInfo option" where
  "lost_during host n li =
     (case device_lost host of
        None \<Rightarrow> li
      | Some (m, ev) \<Rightarrow> if m = n then Some ev else li)"

text \<open>
  The end of the private \<open>release()\<close>, after the third \<open>popErrorScope\<close> has rejected as it
  should: the two popped errors are examined.
\<close>

definition check_popped :: "GPUError option \<Rightarrow> GPUError option \<Rightarrow> error + unit" where
  "check_popped gpuValidationError gpuOutOfMemoryError =
     (case gpuValidationError of
        Some e \<Rightarrow>
          (case e of
             GPUValidationError msg \<Rightarrow>
               Inl (TestFailedButDeviceReusable (''Unexpected validation error occurred: '' @ msg))
           | _ \<Rightarrow> Inl (Error ''''))
      | None \<Rightarrow>
          (case gpuOutOfMemoryError of
             Some e \<Rightarrow>
               (case e of
                  GPUOutOfMemoryError \<Rightarrow>
                    Inl (TestOOMedShouldAttemptGC ''Unexpected out-of-memory error occurred'')
                | _ \<Rightarrow> Inl (Error ''''))
           | None \<Rightarrow> Inr ()))"

text \<open>
  The \<open>catch\<close> around the first two \<open>popErrorScope\<close> calls: the rejection is thrown on if
  the device is known to be lost, and the assertion fails otherwise.
\<close>

definition pop_failed :: "GPUDeviceLostInfo option \<Rightarrow> error \<Rightarrow> error" where
  "pop_failed li ex =
     (case assert (li \<noteq> None)
             ''popErrorScope failed; should only happen if device has been lost'' of
        Some assertion \<Rightarrow> assertion
      | None \<Rightarrow> ex)"

text \<open>
  The private \<open>DeviceHolder.release()\<close>, from the value of \<open>this.lostInfo\<close> when it starts.
  The result is how the promise settles (\<open>None\<close>: it is still pending at the time limit)
  and the value of \<open>this.lostInfo\<close> then.
\<close>

definition DeviceHolder_release ::
  "release_host \<Rightarrow> GPUDeviceLostInfo option \<Rightarrow> (error + unit) option \<times> GPUDeviceLostInfo option" where
  "DeviceHolder_release host li0 =
     (let li1 = lost_during host 1 li0 in
      case popErrorScope1 host of
        Pending \<Rightarrow> (None, li1)
      | Rejects ex \<Rightarrow> (Some (Inl (pop_failed li1 ex)), li1)
      | Resolves gpuValidationError \<Rightarrow>
          (let li2 = lost_during host 2 li1 in
           case popErrorScope2 host of
             Pending \<Rightarrow> (None, li2)
           | Rejects ex \<Rightarrow> (Some (Inl (pop_failed li2 ex)), li2)
           | Resolves gpuOutOfMemoryError \<Rightarrow>
               (let li3 = (case onSubmittedWorkDone host of
                             None \<Rightarrow> li2
                           | Some _ \<Rightarrow> lost_during host 3 li2)
                in case onSubmittedWorkDone host of
                     Some Pending \<Rightarrow> (None, li3)
                   | Some (Rejects ex) \<Rightarrow> (Some (Inl ex), li3)
                   | _ \<Rightarrow>
                       (let li4 = lost_during host 4 li3 in
                        case popErrorScope3 host of
                          Pending \<Rightarrow> (None, li4)
                        | Resolves _ \<Rightarrow>
                            (Some (Inl (Error
                               ''There was an extra error scope on the stack after a test'')),
                             li4)
                        | Rejects _ \<Rightarrow>
                            (Some (check_popped gpuValidationError gpuOutOfMemoryError),
                             li4)))))"

text \<open>
  \<open>ensureRelease()\<close> on a holder: the result and the holder afterwards. The assertion
  stands before the \<open>try\<close>; past it, the \<open>finally\<close> sets the state whatever happens.
\<close>

definition ensureRelease :: "release_host \<Rightarrow> DeviceHolder \<Rightarrow> (error + unit) \<times> DeviceHolder" where
  "ensureRelease host this =
     (case assert (state this \<noteq> free) '''' of
        Some ex \<Rightarrow> (Inl ex, this)
      | None \<Rightarrow>
          (let (r, li) =
                 (if state this = acquired
                  then (case DeviceHolder_release host (lostInfo this) of
                          (None, li) \<Rightarrow> (Inl (Error ''finalization popErrorScope timed out''), li)
                        | (Some r, li) \<Rightarrow> (r, li))
                  else (Inr (), lostInfo this))
           in (r, this\<lparr>lostInfo := li, state := free\<rparr>)))"

subsection \<open>DeviceHolderPool\<close>

record DeviceHolderPool =
  poolSize :: nat
  unsupported :: "string set"
  holders :: "(string \<times> nat) list"

definition new_DeviceHolderPool :: "nat \<Rightarrow> DeviceHolderPool" where
  "new_DeviceHolderPool n = \<lparr>poolSize = n, unsupported = {}, holders = []\<rparr>"

text \<open>
  The loop of \<open>deleteByDevice\<close>: the first entry whose holder has the device is spliced
  out, and the loop ends there.
\<close>

fun deleteByDevice_loop :: "DeviceHolder list \<Rightarrow> nat \<Rightarrow> (string \<times> nat) list \<Rightarrow> (string \<times> nat) list" where
  "deleteByDevice_loop objs dev [] = []"
| "deleteByDevice_loop objs dev ((key, holder) # entries) =
     (if device (objs ! holder) = dev then entries
      else (key, holder) # deleteByDevice_loop objs dev entries)"

definition deleteByDevice :: "DeviceHolder list \<Rightarrow> DeviceHolderPool \<Rightarrow> nat \<Rightarrow> DeviceHolderPool" where
  "deleteByDevice objs this dev = this\<lparr>holders := deleteByDevice_loop objs dev (holders this)\<rparr>"

definition insertAndCleanUp :: "DeviceHolderPool \<Rightarrow> string \<Rightarrow> nat \<Rightarrow> DeviceHolderPool" where
  "insertAndCleanUp this key holder =
     (let pushed = holders this @ [(key, holder)]
      in if length pushed > poolSize this then this\<lparr>holders := tl pushed\<rparr>
         else this\<lparr>holders := pushed\<rparr>)"

text \<open>
  The search loop of \<open>getOrCreate\<close>, \<open>for (const [i, { key, holder }] of
  this.holders.entries())\<close>: the index, key and holder of the first entry on which the
  condition of the \<open>if\<close> holds. The \<open>key\<close> bound by the loop is the key of the entry; the
  condition reads the state of the holder and nothing else.
\<close>

fun search_free :: "DeviceHolder list \<Rightarrow> nat \<Rightarrow> (string \<times> nat) list \<Rightarrow> (nat \<times> string \<times> nat) option" where
  "search_free objs i [] = None"
| "search_free objs i ((key, holder) # entries) =
     (if state (objs ! holder) = free then Some (i, key, holder)
      else search_free objs (Suc i) entries)"

text \<open>\<open>this.holders.splice(i, 1)\<close>.\<close>

definition splice1 :: "nat \<Rightarrow> 'a list \<Rightarrow> 'a list" where
  "splice1 i xs = take i xs @ drop (Suc i) xs"

definition getOrCreate ::
  "capability_info \<Rightarrow> (nat \<Rightarrow> create_host) \<Rightarrow> DeviceHolderPool \<times> store \<Rightarrow>
   UncanonicalizedDeviceDescriptor option \<Rightarrow> (error + nat) \<times> DeviceHolderPool \<times> store" where
  "getOrCreate ci host ph uncanonicalizedDescriptor =
     (let (this, h) = ph;
          (descriptor, key) = canonicalizeDescriptor ci uncanonicalizedDescriptor
      in if key \<in> unsupported this
         then (Inl (SkipTestCase (''GPUDeviceDescriptor previously failed: '' @
                                  JSON_stringify_opt descriptor)),
               this, h)
         else
           (case search_free (objects h) 0 (holders this) of
              Some (i, key', holder) \<Rightarrow>
                (Inr holder,
                 this\<lparr>holders := splice1 i (holders this) @ [(key', holder)]\<rparr>, h)
            | None \<Rightarrow>
                (case DeviceHolder_create host h descriptor of
                   (Inl ex, h') \<Rightarrow>
                     (case ex of
                        FeaturesNotSupported msg \<Rightarrow>
                          (Inl (SkipTestCase (''GPUDeviceDescriptor not supported: '' @
                                  JSON_stringify_opt descriptor @ [CHR 0x0A] @ msg)),
                           this\<lparr>unsupported := insert key (unsupported this)\<rparr>, h')
                      | _ \<Rightarrow> (Inl ex, this, h'))
                 | (Inr value, h') \<Rightarrow> (Inr value, insertAndCleanUp this key value, h'))))"

subsection \<open>DevicePool\<close>

definition kDevicePoolSize :: nat where
  "kDevicePoolSize = 20"

text \<open>The field \<open>holders\<close> of \<open>DevicePool\<close>.\<close>

datatype DevicePool = uninitialized | failed | pool DeviceHolderPool

text \<open>\<open>ex instanceof Error\<close>, \<open>ex.name\<close> and \<open>ex.message\<close>.\<close>

fun instanceof_Error :: "error \<Rightarrow> bool" where
  "instanceof_Error HostValue = False"
| "instanceof_Error _ = True"

fun error_name :: "error \<Rightarrow> string" where
  "error_name (HostError name msg) = name"
| "error_name (TypeError msg) = ''TypeError''"
| "error_name _ = ''Error''"

fun error_message :: "error \<Rightarrow> string" where
  "error_message (Error msg) = msg"
| "error_message (TestFailedButDeviceReusable msg) = msg"
| "error_message (FeaturesNotSupported msg) = msg"
| "error_message (TestOOMedShouldAttemptGC msg) = msg"
| "error_message (SkipTestCase msg) = msg"
| "error_message (HostError name msg) = msg"
| "error_message (TypeError msg) = msg"
| "error_message HostValue = ''''"

text \<open>
  The first part of \<open>reserve\<close>, which initialises the pool on first use: \<open>Inl errorMessage\<close>
  when \<open>this.holders\<close> is \<open>'failed'\<close> afterwards, \<open>Inr\<close> the holder pool otherwise.
\<close>

definition initialize ::
  "capability_info \<Rightarrow> (nat \<Rightarrow> create_host) \<Rightarrow> DevicePool \<times> store \<Rightarrow>
   (string + DeviceHolderPool) \<times> store" where
  "initialize ci host dh =
     (case fst dh of
        uninitialized \<Rightarrow>
          (case getOrCreate ci host (new_DeviceHolderPool kDevicePoolSize, snd dh) None of
             (Inl ex, this, h) \<Rightarrow>
               (Inl (if instanceof_Error ex
                     then '' with '' @ error_name ex @ '' '' @ [CHR 0x22] @ error_message ex @
                          [CHR 0x22]
                     else ''''),
                h)
           | (Inr holder, this, h) \<Rightarrow> (Inr this, h))
      | failed \<Rightarrow> (Inl '''', snd dh)
      | pool this \<Rightarrow> (Inr this, snd dh))"

definition reserve ::
  "capability_info \<Rightarrow> (nat \<Rightarrow> create_host) \<Rightarrow> DevicePool \<times> store \<Rightarrow>
   UncanonicalizedDeviceDescriptor option \<Rightarrow> (error + nat) \<times> DevicePool \<times> store" where
  "reserve ci host dh descriptor =
     (case initialize ci host dh of
        (Inl errorMessage, h) \<Rightarrow>
          (Inl (Error (''WebGPU device failed to initialize'' @ errorMessage @
                       ''; not retrying'')),
           failed, h)
      | (Inr this, h) \<Rightarrow>
          (case getOrCreate ci host (this, h) descriptor of
             (Inl ex, this', h') \<Rightarrow> (Inl ex, pool this', h')
           | (Inr holder, this', h') \<Rightarrow>
               (case assert (state (objects h' ! holder) = free)
                       ''Device was in use on DevicePool.acquire'' of
                  Some ex \<Rightarrow> (Inl ex, pool this', h')
                | None \<Rightarrow>
                    (Inr holder, pool this',
                     set_holder h' holder ((objects h' ! holder)\<lparr>state := reserved\<rparr>)))))"

text \<open>
  The \<open>try\<close> block of \<open>DevicePool.release\<close>: \<open>ensureRelease\<close>, then the assertion that the
  device was not lost.
\<close>

definition lost_message :: "GPUDeviceLostInfo \<Rightarrow> string" where
  "lost_message li =
     ''Device was unexpectedly lost. Reason: '' @
     (case reason li of unknown \<Rightarrow> ''unknown'' | destroyed \<Rightarrow> ''destroyed'') @
     '', Message: '' @ message li"

definition release_try :: "release_host \<Rightarrow> DeviceHolder \<Rightarrow> (error + unit) \<times> DeviceHolder" where
  "release_try host holder =
     (case ensureRelease host holder of
        (Inl ex, holder') \<Rightarrow> (Inl ex, holder')
      | (Inr u, holder') \<Rightarrow>
          (case lostInfo holder' of
             None \<Rightarrow> (Inr (), holder')
           | Some li \<Rightarrow> (Inl (Error (lost_message li)), holder')))"

fun instanceof_TestFailedButDeviceReusable :: "error \<Rightarrow> bool" where
  "instanceof_TestFailedButDeviceReusable (TestFailedButDeviceReusable msg) = True"
| "instanceof_TestFailedButDeviceReusable _ = False"

definition expectedDeviceLost :: "DeviceHolder \<Rightarrow> bool" where
  "expectedDeviceLost holder =
     (expectedLostReason holder \<noteq> None \<and> lostInfo holder \<noteq> None \<and>
      expectedLostReason holder = map_option reason (lostInfo holder))"

text \<open>
  \<open>DevicePool.release\<close>. The first assertion fails when the pool was never initialised;
  the second one, \<open>holder instanceof DeviceHolder\<close>, holds of every reference to a holder.
\<close>

definition release ::
  "release_host \<Rightarrow> DevicePool \<times> store \<Rightarrow> nat \<Rightarrow> (error + unit) \<times> DevicePool \<times> store" where
  "release host dh holder =
     (case fst dh of
        pool this \<Rightarrow>
          (let h = snd dh in
           case assert (state (objects h ! holder) \<noteq> free)
                  ''trying to release a device while already released'' of
             Some ex \<Rightarrow> (Inl ex, pool this, h)
           | None \<Rightarrow>
               (case release_try host (objects h ! holder) of
                  (Inr u, holder') \<Rightarrow>
                    (Inr (), pool this, set_holder h holder (holder'\<lparr>state := free\<rparr>))
                | (Inl ex, holder') \<Rightarrow>
                    (let h1 = set_holder h holder holder';
                         (this', h2) =
                           (if \<not> instanceof_TestFailedButDeviceReusable ex
                            then (deleteByDevice (objects h1) this (device holder'),
                                  if has_destroy host
                                  then h1\<lparr>destroy_calls := destroy_calls h1 @ [device holder']\<rparr>
                                  else h1)
                            else (this, h1));
                         h3 = set_holder h2 holder (holder'\<lparr>state := free\<rparr>)
                     in if \<not> expectedDeviceLost holder'
                        then (Inl ex, pool this', h3)
                        else (Inr (), pool this', h3))))
      | _ \<Rightarrow> (Inl (Error ''DevicePool got into a bad state''), dh))"

subsection \<open>Runs of the pool\<close>

text \<open>
  What can happen to a \<open>DevicePool\<close> and its holders: the three calls of a test runner
  (\<open>reserve\<close>, then on the holder \<open>acquire\<close> and \<open>expectDeviceLost\<close>, then \<open>release\<close>), and
  the loss of a device between two calls. A call on a holder needs a reference to an
  existing holder.
\<close>

datatype op =
    Reserve "UncanonicalizedDeviceDescriptor option"
  | Acquire nat
  | ExpectDeviceLost nat GPUDeviceLostReason
  | DeviceLost nat GPUDeviceLostInfo
  | Release release_host nat

fun step ::
  "capability_info \<Rightarrow> (nat \<Rightarrow> create_host) \<Rightarrow> DevicePool \<times> store \<Rightarrow> op \<Rightarrow> DevicePool \<times> store" where
  "step ci host dh (Reserve descriptor) = snd (reserve ci host dh descriptor)"
| "step ci host dh (Acquire holder) =
     (if holder < length (objects (snd dh)) then (fst dh, snd (acquire (snd dh) holder)) else dh)"
| "step ci host dh (ExpectDeviceLost holder r) =
     (if holder < length (objects (snd dh)) then (fst dh, expectDeviceLost (snd dh) holder r)
      else dh)"
| "step ci host dh (DeviceLost holder ev) =
     (if holder < length (objects (snd dh)) then (fst dh, on_device_lost (snd dh) holder ev)
      else dh)"
| "step ci host dh (Release rhost holder) =
     (if holder < length (objects (snd dh)) then snd (release rhost dh holder) else dh)"

definition run ::
  "capability_info \<Rightarrow> (nat \<Rightarrow> create_host) \<Rightarrow> DevicePool \<times> store \<Rightarrow> op list \<Rightarrow> DevicePool \<times> store" where
  "run ci host dh ops = foldl (step ci host) dh ops"

text \<open>The state of a program that has made a \<open>DevicePool\<close> and not used it yet.\<close>

definition initial :: "DevicePool \<times> store" where
  "initial = (uninitialized,
              \<lparr>objects = [], destroy_calls = [], create_calls = 0, devices_created = 0\<rparr>)"

text \<open>The holders that the pool has in its list.\<close>

definition pooled :: "DevicePool \<Rightarrow> nat set" where
  "pooled dp = (case dp of pool this \<Rightarrow> snd ` set (holders this) | _ \<Rightarrow> {})"

text \<open>
  What holds of the pool and the store in every run: the holders have distinct devices,
  all of them handed out by the host (\<open>store_wf\<close>); the pool lists existing holders, each at
  most once (\<open>pool_wf\<close>); and holders exist only once the pool is initialised.
\<close>

definition store_wf :: "store \<Rightarrow> bool" where
  "store_wf h =
     (distinct (map device (objects h)) \<and>
      (\<forall>holder \<in> set (objects h). device holder < devices_created h))"

definition pool_wf :: "DeviceHolderPool \<Rightarrow> store \<Rightarrow> bool" where
  "pool_wf this h =
     ((\<forall>r \<in> snd ` set (holders this). r < length (objects h)) \<and>
      distinct (map snd (holders this)))"

definition well_formed :: "DevicePool \<times> store \<Rightarrow> bool" where
  "well_formed dh =
     (store_wf (snd dh) \<and>
      (case fst dh of
         pool this \<Rightarrow> pool_wf this (snd dh)
       | _ \<Rightarrow> objects (snd dh) = []))"

text \<open>The holder that \<open>DeviceHolder.create\<close> makes when the host hands out a device.\<close>

definition new_holder :: "store \<Rightarrow> DeviceHolder" where
  "new_holder h = \<lparr>device = devices_created h, state = free, lostInfo = None,
                    expectedLostReason = None\<rparr>"

text \<open>
  How an initialised pool can differ after some calls from what it was before: it is
  still initialised, with the same capacity; no key has left the set of unsupported
  keys; the list has not grown beyond the capacity if it was within it; no holder has
  left the store; and a holder in the list was there before or is a new one.
\<close>

definition evolves :: "DevicePool \<times> store \<Rightarrow> DevicePool \<times> store \<Rightarrow> bool" where
  "evolves dh dh' =
     (\<exists>this this'. fst dh = pool this \<and> fst dh' = pool this' \<and>
        poolSize this' = poolSize this \<and>
        unsupported this \<subseteq> unsupported this' \<and>
        (length (holders this) \<le> poolSize this \<longrightarrow> length (holders this') \<le> poolSize this') \<and>
        length (objects (snd dh)) \<le> length (objects (snd dh')) \<and>
        snd ` set (holders this') \<subseteq>
          snd ` set (holders this) \<union> {r. length (objects (snd dh)) \<le> r})"

subsection \<open>A worked example\<close>

text \<open>
  A host that has one feature and hands out a device on every request, a release during
  which nothing goes wrong, one limit with its default, and a descriptor that asks for
  the feature.
\<close>

definition willing_host :: "nat \<Rightarrow> create_host" where
  "willing_host n =
     \<lparr>getGPU_throws = None,
      requestAdapter = Resolved (Some \<lparr>features = [''timestamp-query''],
                                       requestDevice = (\<lambda>d. Resolved True)\<rparr>)\<rparr>"

definition quiet_release :: release_host where
  "quiet_release =
     \<lparr>popErrorScope1 = Resolves None, popErrorScope2 = Resolves None,
      onSubmittedWorkDone = Some (Resolves ()),
      popErrorScope3 = Rejects (HostError ''OperationError'' []),
      device_lost = None, has_destroy = True\<rparr>"

definition one_limit :: capability_info where
  "one_limit = \<lparr>kLimits = [''maxBindGroups''], kLimitInfo_default = (\<lambda>limit. 4)\<rparr>"

definition timestamp_descriptor :: UncanonicalizedDeviceDescriptor where
  "timestamp_descriptor =
     \<lparr>requiredFeatures = Some [''timestamp-query''], requiredLimits = None\<rparr>"

text \<open>The state after a first \<open>reserve()\<close> and \<open>acquire()\<close> on the holder it returned.\<close>

definition acquired_example :: "DevicePool \<times> store" where
  "acquired_example = run one_limit willing_host initial [Reserve None, Acquire 0]"

text \<open>
  A release during which the validation scope yields an error and the device is lost
  while the queue is awaited, and one during which the device is lost at once and the
  first \<open>popErrorScope\<close> rejects.
\<close>

definition invalid_then_lost :: release_host where
  "invalid_then_lost =
     quiet_release
       \<lparr>popErrorScope1 := Resolves (Some (GPUValidationError ''bad'')),
        device_lost := Some (3, \<lparr>reason = unknown, message = ''crash''\<rparr>)\<rparr>"

definition lost_at_once :: release_host where
  "lost_at_once =
     quiet_release
       \<lparr>popErrorScope1 := Rejects (HostError ''OperationError'' ''lost''),
        device_lost := Some (1, \<lparr>reason = destroyed, message = ''gone''\<rparr>)\<rparr>"

text \<open>The same state after the test has announced that it will destroy the device.\<close>

definition expecting_example :: "DevicePool \<times> store" where
  "expecting_example =
     run one_limit willing_host initial [Reserve None, Acquire 0, ExpectDeviceLost 0 destroyed]"

text \<open>The bound of the list of an initialised \<open>DevicePool\<close>.\<close>

definition bounded :: "DevicePool \<times> store \<Rightarrow> bool" where
  "bounded dh =
     (case fst dh of
        pool this \<Rightarrow> poolSize this = kDevicePoolSize \<and> length (holders this) \<le> poolSize this
      | _ \<Rightarrow> True)"

text \<open>
  A host whose adapter has no feature at all; a second way to write the descriptor that
  asks for the timestamp feature (twice, and with a limit at its default); the key of
  both; and the state after two tests, one on the default device and one on a device
  with the feature, have run at the same time and released their holders.
\<close>

definition bare_host :: "nat \<Rightarrow> create_host" where
  "bare_host n =
     \<lparr>getGPU_throws = None,
      requestAdapter = Resolved (Some \<lparr>features = [],
                                       requestDevice = (\<lambda>d. Resolved True)\<rparr>)\<rparr>"

definition timestamp_descriptor' :: UncanonicalizedDeviceDescriptor where
  "timestamp_descriptor' =
     \<lparr>requiredFeatures = Some [''timestamp-query'', ''timestamp-query''],
      requiredLimits = Some [(''maxBindGroups'', 4)]\<rparr>"

definition timestamp_key :: string where
  "timestamp_key = snd (canonicalizeDescriptor one_limit (Some timestamp_descriptor))"

definition two_free_example :: "DevicePool \<times> store" where
  "two_free_example =
     run one_limit willing_host initial
       [Reserve None, Reserve (Some timestamp_descriptor),
        Release quiet_release 0, Release quiet_release 1]"

text \<open>The state after twenty-one tests have reserved a default device and released none.\<close>

definition crowd :: "DevicePool \<times> store" where
  "crowd = run one_limit willing_host initial (replicate 21 (Reserve None))"

section \<open>Properties of parameter records\<close>

lemma strict_eq_iff: "strict_eq a b \<longleftrightarrow> a = b \<and> a \<noteq> Number NaN"
  by (cases "(a, b)" rule: strict_eq.cases) auto

lemma hasOwnProperty_plain:
  "\<not> has_own_key x ''hasOwnProperty'' \<Longrightarrow> hasOwnProperty receiver x k = Inr (has_own_key x k)"
  by (simp add: hasOwnProperty_def)


lemma paramsEquals_loop1_plain:
  assumes "\<not> has_own_key y ''hasOwnProperty''"
  shows "paramsEquals_loop1 x y ks =
     Inr (\<forall>k \<in> set ks. has_own_key y k \<and> strict_eq (get_prop x k) (get_prop y k))"
  by (induction ks) (auto simp: hasOwnProperty_plain [OF assms])


lemma paramsEquals_loop2_plain:
  assumes "\<not> has_own_key x ''hasOwnProperty''"
  shows "paramsEquals_loop2 x ks = Inr (\<forall>k \<in> set ks. has_own_key x k)"
  by (induction ks) (auto simp: hasOwnProperty_plain [OF assms])

lemma paramsSupersets_loop_plain:
  assumes "\<not> has_own_key sp ''hasOwnProperty''"
  shows "paramsSupersets_loop sp sb ks =
     Inr (\<forall>k \<in> set ks. has_own_key sp k \<and> strict_eq (get_prop sp k) (get_prop sb k))"
  by (induction ks) (auto simp: hasOwnProperty_plain [OF assms])


lemma case_bool_Inr:
  "(case b of True \<Rightarrow> Inr True | False \<Rightarrow> Inr False) = (Inr b :: error + bool)"
  by (cases b) simp_all



lemma paramsEquals_distinct_plain:
  assumes "xr \<noteq> yr" "\<not> has_own_key (store yr) ''hasOwnProperty''"
  shows "paramsEquals store (Some xr) (Some yr) =
     Inr (set (Object_keys (store xr)) = set (Object_keys (store yr)) \<and>
          (\<forall>k \<in> set (Object_keys (store xr)).
             strict_eq (get_prop (store xr) k) (get_prop (store yr) k)))"
proof (cases "\<forall>k \<in> set (Object_keys (store xr)).
    has_own_key (store yr) k \<and> strict_eq (get_prop (store xr) k) (get_prop (store yr) k)")
  case True
  then have plain: "\<not> has_own_key (store xr) ''hasOwnProperty''"
    using assms(2) by (auto simp: has_own_key_def)
  show ?thesis
    using assms(1) True
    by (auto simp: paramsEquals_def paramsEquals_loop1_plain [OF assms(2)]
        paramsEquals_loop2_plain [OF plain] has_own_key_def case_bool_Inr)
next
  case False
  then have loop1:
    "paramsEquals_loop1 (store xr) (store yr) (Object_keys (store xr)) = Inr False"
    by (simp add: paramsEquals_loop1_plain [OF assms(2)])
  have "\<not> (set (Object_keys (store xr)) = set (Object_keys (store yr)) \<and>
          (\<forall>k \<in> set (Object_keys (store xr)).
             strict_eq (get_prop (store xr) k) (get_prop (store yr) k)))"
    using False by (auto simp: has_own_key_def)
  then show ?thesis
    using assms(1) by (simp add: paramsEquals_def loop1)
qed




text \<open>
  For records without a property named \<open>hasOwnProperty\<close>, \<open>paramsEquals\<close> always returns,
  and returns what the specification says.
\<close>

lemma paramsEquals_plain:
  assumes "\<And>r. \<not> has_own_key (store r) ''hasOwnProperty''"
  shows "paramsEquals store x y =
     Inr (x = y \<or>
        (\<exists>xr yr. x = Some xr \<and> y = Some yr \<and>
           set (Object_keys (store xr)) = set (Object_keys (store yr)) \<and>
           (\<forall>k \<in> set (Object_keys (store xr)).
              strict_eq (get_prop (store xr) k) (get_prop (store yr) k))))"
proof (cases "\<exists>xr yr. x = Some xr \<and> y = Some yr \<and> xr \<noteq> yr")
  case True
  then obtain xr yr where "x = Some xr" "y = Some yr" "xr \<noteq> yr" by blast
  then show ?thesis by (simp add: paramsEquals_distinct_plain [OF _ assms])
next
  case False
  then show ?thesis by (cases x; cases y) (auto simp: paramsEquals_def)
qed

text \<open>
  No deep equality: two records whose only value is a reference to two distinct arrays
  are unequal, also when the two arrays have the same contents.
\<close>

lemma paramsEquals_is_shallow:
  "paramsEquals
     (\<lambda>r. if r = 0 then [(''a'', Object 2)] else if r = 1 then [(''a'', Object 3)]
          else [(''0'', Number (Num 7))])
     (Some 0) (Some 1) = Inr False"
  by (simp add: paramsEquals_def hasOwnProperty_def has_own_key_def Object_keys_def get_prop_def)

text \<open>
  A record holding \<open>NaN\<close> equals itself as a reference and no other record with the same
  contents.
\<close>

lemma paramsEquals_NaN:
  "paramsEquals (\<lambda>r. [(''a'', Number NaN)]) (Some 0) (Some 0) = Inr True \<and>
   paramsEquals (\<lambda>r. [(''a'', Number NaN)]) (Some 0) (Some 1) = Inr False"
  by (simp add: paramsEquals_def hasOwnProperty_def has_own_key_def Object_keys_def get_prop_def)




text \<open>
  For a \<open>sup\<close> without a property named \<open>hasOwnProperty\<close>, \<open>paramsSupersets\<close> always
  returns, and returns what the specification says.
\<close>

lemma paramsSupersets_plain:
  assumes "\<And>r. \<not> has_own_key (store r) ''hasOwnProperty''"
  shows "paramsSupersets store sup_ref sub_ref =
     Inr (sub_ref = None \<or>
        (\<exists>supr subr. sup_ref = Some supr \<and> sub_ref = Some subr \<and>
           (\<forall>k \<in> set (Object_keys (store subr)).
              has_own_key (store supr) k \<and>
              strict_eq (get_prop (store supr) k) (get_prop (store subr) k))))"
  by (cases sup_ref; cases sub_ref)
     (simp_all add: paramsSupersets_def paramsSupersets_loop_plain [OF assms])

lemma paramsSupersets_not_symmetric:
  "paramsSupersets
     (\<lambda>r. if r = 0 then [(''a'', Number (Num 1)), (''b'', String ''x'')]
          else [(''b'', String ''x'')])
     (Some 1) (Some 0) = Inr False"
  by (simp add: paramsSupersets_def Object_keys_def get_prop_def hasOwnProperty_def
      has_own_key_def)

section \<open>Properties of tagged variants\<close>

lemma pvariant_inner_eq:
  "pvariant_inner key value ps =
     (map (tagged key value) (takeWhile (\<lambda>p. \<not> stops key p) ps),
      map_option stop_error (find (stops key) ps))"
  by (induction ps) (auto simp: hasOwnProperty_def stops_def stop_error_def)

lemma find_entries:
  "find (\<lambda>(value, p). stops key p) (map (Pair v) ps @ rest) =
     (case find (stops key) ps of
        Some p \<Rightarrow> Some (v, p)
      | None \<Rightarrow> find (\<lambda>(value, p). stops key p) rest)"
  by (induction ps) auto

lemma takeWhile_entries_hit:
  assumes "\<exists>p \<in> set ps. stops key p"
  shows "takeWhile (\<lambda>(value, p). \<not> stops key p) (map (Pair v) ps @ rest) =
         map (Pair v) (takeWhile (\<lambda>p. \<not> stops key p) ps)"
proof -
  from assms obtain p where p: "p \<in> set ps" "stops key p" by blast
  have "takeWhile (\<lambda>(value, p). \<not> stops key p) (map (Pair v) ps @ rest) =
        takeWhile (\<lambda>(value, p). \<not> stops key p) (map (Pair v) ps)"
    by (rule takeWhile_append1 [of "(v, p)"]) (use p in auto)
  also have "\<dots> = map (Pair v) (takeWhile (\<lambda>p. \<not> stops key p) ps)"
    by (simp add: takeWhile_map comp_def)
  finally show ?thesis .
qed

lemma takeWhile_entries_miss:
  assumes "\<not> (\<exists>p \<in> set ps. stops key p)"
  shows "takeWhile (\<lambda>(value, p). \<not> stops key p) (map (Pair v) ps @ rest) =
         map (Pair v) ps @ takeWhile (\<lambda>(value, p). \<not> stops key p) rest"
  by (rule takeWhile_append2) (use assms in auto)

text \<open>
  What a full iteration of \<open>pvariant\<close> yields and how it ends: one output record for each
  entry before the first one at whose sub-record the check stops, and then the exception
  of that entry, if there is one.
\<close>

lemma pvariant_eq:
  "pvariant key variants =
     (map (\<lambda>(value, p). tagged key value p)
        (takeWhile (\<lambda>(value, p). \<not> stops key p) (variant_entries variants)),
      map_option (\<lambda>(value, p). stop_error p)
        (find (\<lambda>(value, p). stops key p) (variant_entries variants)))"
proof (induction key variants rule: pvariant.induct)
  case (1 key)
  show ?case by (simp add: variant_entries_def)
next
  case (2 key v ps variants)
  have entries:
    "variant_entries ((v, ps) # variants) = map (Pair v) ps @ variant_entries variants"
    by (simp add: variant_entries_def)
  show ?case
  proof (cases "find (stops key) ps")
    case (Some p)
    then have hit: "\<exists>p \<in> set ps. stops key p"
      by (auto simp: find_Some_iff)
    show ?thesis
      unfolding entries find_entries takeWhile_entries_hit [OF hit]
      by (simp add: pvariant_inner_eq Some comp_def)
  next
    case None
    then have miss: "\<not> (\<exists>p \<in> set ps. stops key p)"
      by (simp add: find_None_iff)
    have all: "takeWhile (\<lambda>p. \<not> stops key p) ps = ps"
      using miss by (simp add: takeWhile_eq_all_conv)
    have inner: "pvariant_inner key v ps = (map (tagged key v) ps, None)"
      by (simp add: pvariant_inner_eq all None)
    have IH: "pvariant key variants =
       (map (\<lambda>(value, p). tagged key value p)
          (takeWhile (\<lambda>(value, p). \<not> stops key p) (variant_entries variants)),
        map_option (\<lambda>(value, p). stop_error p)
          (find (\<lambda>(value, p). stops key p) (variant_entries variants)))"
      using "2.IH" [OF inner [symmetric]] by simp
    show ?thesis
      unfolding entries find_entries takeWhile_entries_miss [OF miss]
      by (simp add: inner IH None comp_def)
  qed
qed





text \<open>The error does come first when the first record visited is a colliding one.\<close>

lemma pvariant_collision_at_first_entry:
  "stops key p \<Longrightarrow> pvariant key ((value, p # ps) # variants) = ([], Some (stop_error p))"
  by (auto simp: hasOwnProperty_def stops_def stop_error_def)

text \<open>
  The exception is not the collision error when the record at which the check stops has a
  property named \<open>hasOwnProperty\<close>, whether or not it has the key.
\<close>

lemma pvariant_hidden_method:
  "pvariant ''k''
     [(Number (Num 1), [[(''hasOwnProperty'', Number (Num 1))], [(''k'', Number (Num 2))]])] =
   ([], Some (TypeError ''p.hasOwnProperty is not a function''))"
  by (simp add: hasOwnProperty_def has_own_key_def Object_keys_def not_a_function_def)

text \<open>
  Without such records and without a collision the iteration runs to its end, and yields
  one output record for each entry.
\<close>

lemma pvariant_no_collision:
  assumes "\<forall>(value, p) \<in> set (variant_entries variants). \<not> stops key p"
  shows "pvariant key variants =
     (map (\<lambda>(value, p). tagged key value p) (variant_entries variants), None)"
proof -
  have none: "find (\<lambda>(value, p). stops key p) (variant_entries variants) = None"
    using assms by (auto simp: find_None_iff)
  have all: "takeWhile (\<lambda>(value, p). \<not> stops key p) (variant_entries variants) =
      variant_entries variants"
    using assms by (auto simp: takeWhile_eq_all_conv)
  show ?thesis unfolding pvariant_eq none all by simp
qed

text \<open>
  The keys of an output record: the tag key comes first, except that keys that are array
  indices come before it, in ascending order.
\<close>

lemma pvariant_key_order:
  "pvariant ''k'' [(Boolean True, [[(''b'', Null), (''10'', Null), (''2'', Null)]])] =
   ([[(''2'', Null), (''10'', Null), (''k'', Boolean True), (''b'', Null)]], None)"
  by (simp add: hasOwnProperty_def has_own_key_def Object_keys_def tagged_def
      own_property_order_def array_index_def nat_of_string_def digit_value_def)

section \<open>Properties of the checklist tool\<close>

lemma overlap_message_report [simp]: "is_violation_report (overlap_message c q1 q2)"
  by (simp add: is_violation_report_def overlap_message_def)


lemma no_query_message_report [simp]: "is_violation_report (no_query_message c t)"
  by (simp add: is_violation_report_def no_query_message_def)

lemma overlaps_inner_None:
  "overlaps_inner c e1 es = None \<longleftrightarrow>
     \<not> (\<exists>e2 \<in> set es. ident e1 \<noteq> ident e2 \<and> compareQueries c (query e1) (query e2) \<noteq> Unordered)"
  by (induction es) auto

lemma overlaps_inner_Some:
  "overlaps_inner c e1 es = Some m \<Longrightarrow> is_violation_report m"
  by (induction es) (auto split: if_splits)

lemma overlaps_outer_None:
  "overlaps_outer c es queries = None \<longleftrightarrow>
     \<not> (\<exists>e1 \<in> set es. \<exists>e2 \<in> set queries.
          ident e1 \<noteq> ident e2 \<and> compareQueries c (query e1) (query e2) \<noteq> Unordered)"
proof (induction es)
  case Nil
  show ?case by simp
next
  case (Cons e1 es)
  show ?case
  proof (cases "overlaps_inner c e1 queries")
    case None
    then show ?thesis using Cons overlaps_inner_None [of c e1 queries] by auto
  next
    case (Some m)
    then have "overlaps_inner c e1 queries \<noteq> None" by simp
    then show ?thesis using Some overlaps_inner_None [of c e1 queries] by auto
  qed
qed

lemma overlaps_outer_Some:
  "overlaps_outer c es queries = Some m \<Longrightarrow> is_violation_report m"
  by (induction es) (auto simp: overlaps_inner_Some split: option.splits)

lemma count_case_queries:
  "count_case c t qs = Some qs' \<Longrightarrow> map query qs' = map query qs"
  by (induction qs arbitrary: qs') (auto simp: Let_def split: if_splits)

lemma count_case_None:
  "count_case c t qs = None \<longleftrightarrow> \<not> covers c qs t"
  by (induction qs) (auto simp: covers_def Let_def)

lemma covers_cong: "map query qs' = map query qs \<Longrightarrow> covers c qs' t = covers c qs t"
proof -
  assume "map query qs' = map query qs"
  then have "query ` set qs' = query ` set qs" by (metis set_map)
  then show ?thesis unfolding covers_def by (metis (no_types, lifting) image_iff)
qed

lemma caseloop_Inl:
  "caseloop c ts qs = Inl m \<Longrightarrow> is_violation_report m"
  by (induction ts arbitrary: qs) (auto split: option.splits)

lemma caseloop_Inr_iff:
  "(\<exists>qs'. caseloop c ts qs = Inr qs') \<longleftrightarrow> (\<forall>t \<in> set ts. covers c qs t)"
proof (induction ts arbitrary: qs)
  case Nil
  show ?case by simp
next
  case (Cons t ts)
  show ?case
  proof (cases "count_case c t qs")
    case None
    then show ?thesis using count_case_None [of c t qs] by auto
  next
    case (Some qs1)
    have "covers c qs t" using Some count_case_None [of c t qs] by auto
    moreover have "\<And>u. covers c qs1 u = covers c qs u"
      using count_case_queries [OF Some] by (rule covers_cong)
    ultimately show ?thesis using Some Cons [of qs1] by simp
  qed
qed


lemma is_violation_report_Cons [simp]:
  "is_violation_report (a # b # d # x) \<longleftrightarrow>
     a = CHR '' '' \<and> b = CHR '' '' \<and> (d = CHR ''O'' \<or> d = CHR ''N'')"
  by (auto simp: is_violation_report_def)

lemma reports_unmatched [simp]: "reports (unmatched_lines c qs) = []"
  by (induction qs) (auto simp: reports_def unmatched_lines_def)

lemma reports_append [simp]: "reports (xs @ ys) = reports xs @ reports ys"
  by (simp add: reports_def)

lemma reports_Nil [simp]: "reports [] = []"
  by (simp add: reports_def)

lemma reports_Cons [simp]:
  "reports (m # out) = (if is_violation_report m then m # reports out else reports out)"
  by (simp add: reports_def)

lemma check_suite_Inl:
  assumes "check_suite c out s queries = Inl p"
  shows "suite_violation c s queries \<and> exit_status p = Some 1 \<and>
         (\<exists>m. is_violation_report m \<and> reports (stdout p) = reports out @ [m] \<and>
              last (stdout p) = m)"
proof (cases "overlaps_outer c queries queries")
  case (Some m)
  have "overlapping c queries"
    using Some overlaps_outer_None [of c queries queries] by (auto simp: overlapping_def)
  moreover have "is_violation_report m" using Some by (rule overlaps_outer_Some)
  ultimately show ?thesis using assms Some
    by (auto simp: check_suite_def Let_def die_def suite_violation_def)
next
  case None
  then obtain m where m: "caseloop c (loadCases c s) queries = Inl m"
    using assms by (auto simp: check_suite_def Let_def split: sum.splits)
  have "\<not> (\<exists>qs'. caseloop c (loadCases c s) queries = Inr qs')" using m by simp
  then have "\<exists>t \<in> set (loadCases c s). \<not> covers c queries t"
    unfolding caseloop_Inr_iff by simp
  moreover have "is_violation_report m" using m by (rule caseloop_Inl)
  ultimately show ?thesis using assms None m
    by (auto simp: check_suite_def Let_def die_def suite_violation_def)
qed

lemma check_suite_Inr:
  assumes "check_suite c out s queries = Inr out'"
  shows "\<not> suite_violation c s queries \<and> reports out' = reports out"
proof -
  from assms have none: "overlaps_outer c queries queries = None"
    by (auto simp: check_suite_def Let_def split: option.splits)
  from assms none obtain qs' where qs': "caseloop c (loadCases c s) queries = Inr qs'"
    by (auto simp: check_suite_def Let_def split: sum.splits)
  have "\<not> overlapping c queries"
    using none overlaps_outer_None [of c queries queries] by (auto simp: overlapping_def)
  moreover have "\<forall>t \<in> set (loadCases c s). covers c queries t"
    using qs' caseloop_Inr_iff [of c "loadCases c s" queries] by blast
  ultimately show ?thesis using assms none qs'
    by (auto simp: check_suite_def Let_def suite_violation_def)
qed

lemma check_suites_violation:
  assumes "\<exists>(s, queries) \<in> set m. suite_violation c s queries"
  shows "exit_status (check_suites c out m) = Some 1 \<and>
         (\<exists>msg. is_violation_report msg \<and>
              reports (stdout (check_suites c out m)) = reports out @ [msg] \<and>
              last (stdout (check_suites c out m)) = msg)"
  using assms
proof (induction m arbitrary: out)
  case Nil
  then show ?case by simp
next
  case (Cons a m)
  obtain s queries where a: "a = (s, queries)" by (cases a)
  show ?case
  proof (cases "check_suite c out s queries")
    case (Inl p)
    then show ?thesis using check_suite_Inl [OF Inl] by (simp add: a)
  next
    case (Inr out')
    have nv: "\<not> suite_violation c s queries" and r: "reports out' = reports out"
      using check_suite_Inr [OF Inr] by auto
    have "\<exists>(s, queries) \<in> set m. suite_violation c s queries"
      using Cons.prems nv by (auto simp: a)
    from Cons.IH [OF this, of out'] show ?thesis using Inr r by (simp add: a)
  qed
qed

lemma check_suites_clean:
  assumes "\<not> (\<exists>(s, queries) \<in> set m. suite_violation c s queries)"
  shows "exit_status (check_suites c out m) = None \<and>
         reports (stdout (check_suites c out m)) = reports out"
  using assms
proof (induction m arbitrary: out)
  case Nil
  then show ?case by simp
next
  case (Cons a m)
  obtain s queries where a: "a = (s, queries)" by (cases a)
  have nv: "\<not> suite_violation c s queries" using Cons.prems by (auto simp: a)
  show ?case
  proof (cases "check_suite c out s queries")
    case (Inl p)
    then show ?thesis using check_suite_Inl [OF Inl] nv by simp
  next
    case (Inr out')
    have r: "reports out' = reports out" using check_suite_Inr [OF Inr] by auto
    have "\<not> (\<exists>(s, queries) \<in> set m. suite_violation c s queries)"
      using Cons.prems by (auto simp: a)
    from Cons.IH [OF this, of out'] show ?thesis using Inr r by (simp add: a)
  qed
qed

lemma has_violation_iff:
  "has_violation c allQueries \<longleftrightarrow>
     (\<exists>(s, queries) \<in> set (group_queries c [] 0 allQueries). suite_violation c s queries)"
  by (simp add: has_violation_def)

lemma reports_initial [simp]:
  "reports [''Loading queries...'', ''  Found suites: '' @ x] = []"
  by (simp add: reports_def)

text \<open>
  C5, as the code has it: when the list of queries has a violation (two overlapping
  queries of a suite, or a case of a suite that no query covers), the tool reports one
  violation only, the first it meets: that report is the last message it logs, and the
  process ends there with status 1.
\<close>

theorem checklist_reports_first_violation_only:
  assumes "has_violation c allQueries"
  shows "exit_status (checklist c allQueries) = Some 1 \<and>
         (\<exists>message. is_violation_report message \<and>
              filter is_violation_report (stdout (checklist c allQueries)) = [message] \<and>
              last (stdout (checklist c allQueries)) = message)"
proof -
  let ?m = "group_queries c [] 0 allQueries"
  let ?out = "[''Loading queries...'', ''  Found suites: '' @ join '' '' (map fst ?m)]"
  have v: "\<exists>(s, queries) \<in> set ?m. suite_violation c s queries"
    using assms by (simp add: has_violation_iff)
  have c: "checklist c allQueries = check_suites c ?out ?m"
    by (simp add: checklist_def Let_def)
  have r0: "reports ?out = []" by (simp add: reports_def)
  from check_suites_violation [OF v, of ?out] obtain msg where
    "exit_status (check_suites c ?out ?m) = Some 1" "is_violation_report msg"
    "reports (stdout (check_suites c ?out ?m)) = reports ?out @ [msg]"
    "last (stdout (check_suites c ?out ?m)) = msg"
    by blast
  then show ?thesis unfolding c using r0 by (auto simp: reports_def)
qed

text \<open>Without a violation the tool reports none and runs to its end.\<close>

lemma checklist_no_violation:
  assumes "\<not> has_violation c allQueries"
  shows "exit_status (checklist c allQueries) = None \<and>
         filter is_violation_report (stdout (checklist c allQueries)) = []"
proof -
  let ?m = "group_queries c [] 0 allQueries"
  let ?out = "[''Loading queries...'', ''  Found suites: '' @ join '' '' (map fst ?m)]"
  have nv: "\<not> (\<exists>(s, queries) \<in> set ?m. suite_violation c s queries)"
    using assms by (simp add: has_violation_iff)
  have c: "checklist c allQueries = check_suites c ?out ?m"
    by (simp add: checklist_def Let_def)
  have "reports ?out = []" by (simp add: reports_def)
  then show ?thesis
    using check_suites_clean [OF nv, of ?out] unfolding c reports_def by simp
qed

theorem checklist_reports_first_violation_only_witness:
  "has_violation example_collaborators [''s:a:*'', ''s:b:*'', ''s:a:*''] \<and>
   exit_status (checklist example_collaborators [''s:a:*'', ''s:b:*'', ''s:a:*'']) = Some 1"
proof -
  have h: "has_violation example_collaborators [''s:a:*'', ''s:b:*'', ''s:a:*'']"
    by (simp add: has_violation_def suite_violation_def overlapping_def
          example_collaborators_def)
  from checklist_reports_first_violation_only [OF h] show ?thesis using h by simp
qed

text \<open>
  The claim as the specification states it (every violation is reported) fails. The list
  below has two pairs of overlapping queries, lines 0 and 1 and lines 2 and 3; the tool
  reports the first pair and exits, and the second pair is never reported.
\<close>

theorem checklist_stops_at_first_violation:
  "compareQueries example_collaborators ''s:a:*'' ''s:a:*'' \<noteq> Unordered \<and>
   compareQueries example_collaborators ''s:b:*'' ''s:b:*'' \<noteq> Unordered \<and>
   checklist example_collaborators [''s:a:*'', ''s:a:*'', ''s:b:*'', ''s:b:*''] =
     \<lparr>stdout =
        [''Loading queries...'',
         ''  Found suites: s'',
         ''Suite '' @ [CHR 0x22] @ ''s'' @ [CHR 0x22] @ ''...'',
         ''  Found 0 cases.'',
         ''  Checking overlaps between 4 queries...'',
         ''  Overlapping queries in list:'' @ [CHR 0x0A] @ ''    s:a:*'' @ [CHR 0x0A] @
         ''    s:a:*''],
      exit_status = Some 1\<rparr>"
  by (simp add: checklist_def example_collaborators_def check_suite_def die_def
        overlap_message_def string_of_nat.simps digit_def Let_def)

section \<open>Properties of the device pool\<close>

subsection \<open>Holders, search and insertion\<close>

lemma objects_set_holder [simp]: "objects (set_holder h r v) = (objects h)[r := v]"
  by (simp add: set_holder_def)

lemma set_holder_fields [simp]:
  "destroy_calls (set_holder h r v) = destroy_calls h"
  "create_calls (set_holder h r v) = create_calls h"
  "devices_created (set_holder h r v) = devices_created h"
  by (simp_all add: set_holder_def)

lemma ensureRelease_holder:
  "snd (ensureRelease host this) =
     (if state this = free then this
      else this\<lparr>lostInfo := lostInfo (snd (ensureRelease host this)), state := free\<rparr>)"
  by (auto simp: ensureRelease_def assert_def split: prod.splits option.splits)

lemma ensureRelease_state:
  "state this \<noteq> free \<Longrightarrow> state (snd (ensureRelease host this)) = free"
  by (subst ensureRelease_holder) simp

lemma ensureRelease_device [simp]: "device (snd (ensureRelease host this)) = device this"
  by (subst ensureRelease_holder) simp

lemma ensureRelease_expected [simp]:
  "expectedLostReason (snd (ensureRelease host this)) = expectedLostReason this"
  by (subst ensureRelease_holder) simp

lemma release_try_holder: "snd (release_try host this) = snd (ensureRelease host this)"
  by (auto simp: release_try_def split: prod.splits sum.splits option.splits)

lemma release_try_state:
  "state this \<noteq> free \<Longrightarrow> state (snd (release_try host this)) = free"
  by (simp add: release_try_holder ensureRelease_state)

lemma release_try_device [simp]: "device (snd (release_try host this)) = device this"
  by (simp add: release_try_holder)

lemma release_try_expected [simp]:
  "expectedLostReason (snd (release_try host this)) = expectedLostReason this"
  by (simp add: release_try_holder)

text \<open>The store after \<open>release\<close>: of the holders, only the released one changes.\<close>

lemma release_objects:
  assumes "fst dh = pool this"
  shows "objects (snd (snd (release host dh holder))) =
     (if state (objects (snd dh) ! holder) = free then objects (snd dh)
      else (objects (snd dh))[holder := (snd (release_try host (objects (snd dh) ! holder)))\<lparr>state := free\<rparr>])"
  using assms
  by (cases "release_try host (objects (snd dh) ! holder)")
     (auto simp: release_def assert_def Let_def split: sum.splits prod.splits)

lemma release_length [simp]:
  "length (objects (snd (snd (release host dh holder)))) = length (objects (snd dh))"
proof (cases "fst dh")
  case (pool this)
  then show ?thesis by (simp add: release_objects)
qed (simp_all add: release_def)

lemma release_sets_free:
  assumes "fst dh = pool this" "holder < length (objects (snd dh))"
    "state (objects (snd dh) ! holder) \<noteq> free"
  shows "state (objects (snd (snd (release host dh holder))) ! holder) = free"
  using assms by (simp add: release_objects)


lemma search_free_Some:
  "search_free objs i es = Some (j, k, r) \<Longrightarrow>
     i \<le> j \<and> j - i < length es \<and> es ! (j - i) = (k, r) \<and> state (objs ! r) = free"
proof (induction es arbitrary: i)
  case Nil
  then show ?case by simp
next
  case (Cons e es)
  obtain k' r' where e: "e = (k', r')" by (cases e)
  show ?case
  proof (cases "state (objs ! r') = free")
    case True
    then show ?thesis using Cons.prems by (simp add: e)
  next
    case False
    then have "search_free objs (Suc i) es = Some (j, k, r)" using Cons.prems by (simp add: e)
    from Cons.IH [OF this] show ?thesis by (auto simp: Suc_diff_Suc nth_Cons')
  qed
qed

lemma search_free_None:
  "search_free objs i es = None \<longleftrightarrow> (\<forall>(k, r) \<in> set es. state (objs ! r) \<noteq> free)"
proof (induction es arbitrary: i)
  case Nil
  show ?case by simp
next
  case (Cons e es)
  obtain k r where e: "e = (k, r)" by (cases e)
  show ?case using Cons.IH [of "Suc i"] by (simp add: e)
qed

lemma splice1_push_set:
  assumes "i < length xs"
  shows "set (splice1 i xs @ [xs ! i]) = set xs"
proof -
  have "set (take i xs @ xs ! i # drop (Suc i) xs) = set xs"
    by (subst id_take_nth_drop [OF assms, symmetric]) (rule refl)
  then show ?thesis by (auto simp: splice1_def)
qed

lemma splice1_push_distinct:
  assumes "i < length xs" "distinct (map f xs)"
  shows "distinct (map f (splice1 i xs @ [xs ! i]))"
proof -
  have "distinct (map f (take i xs @ xs ! i # drop (Suc i) xs))"
    by (subst id_take_nth_drop [OF assms(1), symmetric]) (rule assms(2))
  then show ?thesis by (auto simp: splice1_def)
qed

lemma splice1_push_length:
  "i < length xs \<Longrightarrow> length (splice1 i xs @ [x]) = length xs"
  by (auto simp: splice1_def)


lemma DeviceHolder_create_Inl:
  assumes "DeviceHolder_create host h d = (Inl ex, h')"
  shows "h' = h\<lparr>create_calls := create_calls h + 1\<rparr>"
  using assms
  by (auto simp: DeviceHolder_create_def Let_def
           split: option.splits settled.splits if_splits bool.splits)

lemma DeviceHolder_create_Inr:
  assumes "DeviceHolder_create host h d = (Inr v, h')"
  shows "v = length (objects h) \<and>
         h' = h\<lparr>create_calls := create_calls h + 1,
                objects := objects h @ [new_holder h],
                devices_created := devices_created h + 1\<rparr>"
  using assms
  by (auto simp: DeviceHolder_create_def Let_def new_holder_def
           split: option.splits settled.splits if_splits bool.splits)

lemma getOrCreate_cases:
  assumes "getOrCreate ci host (this, h) d = (r, this', h')"
  obtains
    (skip) m where "snd (canonicalizeDescriptor ci d) \<in> unsupported this"
      "r = Inl (SkipTestCase m)" "this' = this" "h' = h"
  | (reuse) i k v where "snd (canonicalizeDescriptor ci d) \<notin> unsupported this"
      "search_free (objects h) 0 (holders this) = Some (i, k, v)"
      "r = Inr v" "this' = this\<lparr>holders := splice1 i (holders this) @ [(k, v)]\<rparr>" "h' = h"
  | (unsupp) m m' where "snd (canonicalizeDescriptor ci d) \<notin> unsupported this"
      "search_free (objects h) 0 (holders this) = None"
      "DeviceHolder_create host h (fst (canonicalizeDescriptor ci d)) =
         (Inl (FeaturesNotSupported m), h')"
      "r = Inl (SkipTestCase m')"
      "this' = this\<lparr>unsupported := insert (snd (canonicalizeDescriptor ci d)) (unsupported this)\<rparr>"
  | (fail) ex where "snd (canonicalizeDescriptor ci d) \<notin> unsupported this"
      "search_free (objects h) 0 (holders this) = None"
      "DeviceHolder_create host h (fst (canonicalizeDescriptor ci d)) = (Inl ex, h')"
      "r = Inl ex" "this' = this"
  | (create) v where "snd (canonicalizeDescriptor ci d) \<notin> unsupported this"
      "search_free (objects h) 0 (holders this) = None"
      "DeviceHolder_create host h (fst (canonicalizeDescriptor ci d)) = (Inr v, h')"
      "r = Inr v" "this' = insertAndCleanUp this (snd (canonicalizeDescriptor ci d)) v"
proof -
  obtain descriptor key where c: "canonicalizeDescriptor ci d = (descriptor, key)"
    by (cases "canonicalizeDescriptor ci d")
  show ?thesis
  proof (cases "key \<in> unsupported this")
    case True
    have "r = Inl (SkipTestCase (''GPUDeviceDescriptor previously failed: '' @
                                  JSON_stringify_opt descriptor)) \<and> this' = this \<and> h' = h"
      using assms c True by (simp add: getOrCreate_def)
    then show ?thesis using True c by (intro skip) auto
  next
    case notin: False
    show ?thesis
    proof (cases "search_free (objects h) 0 (holders this)")
      case (Some t)
      obtain i k v where t: "t = (i, k, v)" by (cases t)
      have "r = Inr v \<and> this' = this\<lparr>holders := splice1 i (holders this) @ [(k, v)]\<rparr> \<and> h' = h"
        using assms c notin Some t by (simp add: getOrCreate_def)
      then show ?thesis using notin c Some t by (intro reuse) auto
    next
      case None
      obtain cr h1 where cr: "DeviceHolder_create host h descriptor = (cr, h1)"
        by (cases "DeviceHolder_create host h descriptor")
      show ?thesis
      proof (cases cr)
        case (Inr v)
        have "r = Inr v \<and> this' = insertAndCleanUp this key v \<and> h' = h1"
          using assms c notin None cr Inr by (simp add: getOrCreate_def)
        then show ?thesis using notin c None cr Inr by (intro create) auto
      next
        case (Inl ex)
        show ?thesis
        proof (cases "\<exists>m. ex = FeaturesNotSupported m")
          case True
          then obtain m where m: "ex = FeaturesNotSupported m" by blast
          have "r = Inl (SkipTestCase (''GPUDeviceDescriptor not supported: '' @
                                  JSON_stringify_opt descriptor @ [CHR 0x0A] @ m)) \<and>
                this' = this\<lparr>unsupported := insert key (unsupported this)\<rparr> \<and> h' = h1"
            using assms c notin None cr Inl m by (simp add: getOrCreate_def)
          then show ?thesis using notin c None cr Inl m by (intro unsupp) auto
        next
          case False
          have "r = Inl ex \<and> this' = this \<and> h' = h1"
            using assms c notin None cr Inl False
            by (cases ex) (simp_all add: getOrCreate_def)
          then show ?thesis using notin c None cr Inl by (intro fail) auto
        qed
      qed
    qed
  qed
qed


lemma insertAndCleanUp_holders:
  "holders (insertAndCleanUp this key v) =
     (if length (holders this) + 1 > poolSize this then tl (holders this @ [(key, v)])
      else holders this @ [(key, v)])"
  by (simp add: insertAndCleanUp_def Let_def)

lemma insertAndCleanUp_fields [simp]:
  "poolSize (insertAndCleanUp this key v) = poolSize this"
  "unsupported (insertAndCleanUp this key v) = unsupported this"
  by (simp_all add: insertAndCleanUp_def Let_def)

lemma insertAndCleanUp_set:
  "set (holders (insertAndCleanUp this key v)) \<subseteq> insert (key, v) (set (holders this))"
proof -
  have "set (tl (holders this @ [(key, v)])) \<subseteq> set (holders this @ [(key, v)])"
    by (cases "holders this @ [(key, v)]") auto
  then show ?thesis by (auto simp: insertAndCleanUp_holders)
qed

lemma insertAndCleanUp_distinct:
  assumes "distinct (map snd (holders this))" "v \<notin> snd ` set (holders this)"
  shows "distinct (map snd (holders (insertAndCleanUp this key v)))"
proof -
  have d: "distinct (map snd (holders this @ [(key, v)]))" using assms by auto
  then have "distinct (map snd (tl (holders this @ [(key, v)])))"
    by (simp only: map_tl distinct_tl)
  then show ?thesis using d by (simp add: insertAndCleanUp_holders del: map_append)
qed

lemma reuse_set:
  assumes "search_free objs 0 es = Some (i, k, v)"
  shows "set (splice1 i es @ [(k, v)]) = set es" "(k, v) \<in> set es"
    "distinct (map snd es) \<Longrightarrow> distinct (map snd (splice1 i es @ [(k, v)]))"
    "length (splice1 i es @ [(k, v)]) = length es"
    "state (objs ! v) = free"
proof -
  from search_free_Some [OF assms] have i: "i < length es" "es ! i = (k, v)"
    and f: "state (objs ! v) = free" by auto
  show "set (splice1 i es @ [(k, v)]) = set es"
    using splice1_push_set [OF i(1)] by (simp only: i(2))
  show "(k, v) \<in> set es" using i by (metis nth_mem)
  show "distinct (map snd es) \<Longrightarrow> distinct (map snd (splice1 i es @ [(k, v)]))"
    using splice1_push_distinct [OF i(1), of snd] by (simp only: i(2))
  show "length (splice1 i es @ [(k, v)]) = length es"
    using i(1) by (rule splice1_push_length)
  show "state (objs ! v) = free" by (rule f)
qed

lemma getOrCreate_pooled:
  assumes "getOrCreate ci host (this, h) d = (r, this', h')"
  shows "snd ` set (holders this') \<subseteq> insert (length (objects h)) (snd ` set (holders this))"
  using assms
proof (cases rule: getOrCreate_cases)
  case (reuse i k v)
  have "set (holders this') = set (holders this)"
    unfolding reuse(4) using reuse_set(1) [OF reuse(2)] by simp
  then show ?thesis by auto
next
  case (create v)
  from DeviceHolder_create_Inr [OF create(3)] have v: "v = length (objects h)" by simp
  show ?thesis using insertAndCleanUp_set [of this "snd (canonicalizeDescriptor ci d)" v] create v
    by auto
qed auto

lemma getOrCreate_result:
  assumes "getOrCreate ci host (this, h) d = (Inr v, this', h')"
  shows "(v \<in> snd ` set (holders this) \<and> state (objects h ! v) = free \<and> h' = h) \<or>
         (v = length (objects h) \<and> objects h' = objects h @ [new_holder h])"
  using assms
proof (cases rule: getOrCreate_cases)
  case (reuse i k w)
  have "(k, w) \<in> set (holders this)" "state (objects h ! w) = free"
    using reuse_set [OF reuse(2)] by auto
  then have "w \<in> snd ` set (holders this)" by force
  then show ?thesis using reuse \<open>state (objects h ! w) = free\<close> by simp
next
  case (create w)
  from DeviceHolder_create_Inr [OF create(3)] show ?thesis using create by simp
qed auto

lemma getOrCreate_store:
  assumes "getOrCreate ci host (this, h) d = (r, this', h')"
  shows "(objects h' = objects h \<and> devices_created h' = devices_created h \<or>
          objects h' = objects h @ [new_holder h] \<and>
          devices_created h' = devices_created h + 1 \<and> r = Inr (length (objects h))) \<and>
         destroy_calls h' = destroy_calls h \<and> create_calls h \<le> create_calls h'"
  using assms
proof (cases rule: getOrCreate_cases)
  case (unsupp m m')
  then show ?thesis using DeviceHolder_create_Inl [OF unsupp(3)] by simp
next
  case (fail ex)
  then show ?thesis using DeviceHolder_create_Inl [OF fail(3)] by simp
next
  case (create v)
  then show ?thesis using DeviceHolder_create_Inr [OF create(3)] by simp
qed auto

lemma store_wf_new:
  assumes "store_wf h" "objects h' = objects h @ [new_holder h]"
    "devices_created h' = devices_created h + 1"
  shows "store_wf h'"
  using assms by (fastforce simp: store_wf_def new_holder_def)

lemma getOrCreate_store_wf:
  assumes "getOrCreate ci host (this, h) d = (r, this', h')" "store_wf h"
  shows "store_wf h'"
proof -
  from getOrCreate_store [OF assms(1)] consider
      "objects h' = objects h" "devices_created h' = devices_created h"
    | "objects h' = objects h @ [new_holder h]" "devices_created h' = devices_created h + 1"
    by blast
  then show ?thesis
  proof cases
    case 1
    then show ?thesis using assms(2) by (simp add: store_wf_def)
  next
    case 2
    then show ?thesis using assms(2) by (rule store_wf_new [rotated])
  qed
qed

lemma getOrCreate_pool_wf:
  assumes "getOrCreate ci host (this, h) d = (r, this', h')" "pool_wf this h"
  shows "pool_wf this' h'"
  using assms(1)
proof (cases rule: getOrCreate_cases)
  case (skip m)
  then show ?thesis using assms(2) by simp
next
  case (reuse i k v)
  have "set (holders this') = set (holders this)"
    unfolding reuse(4) using reuse_set(1) [OF reuse(2)] by simp
  moreover have "distinct (map snd (holders this'))"
    unfolding reuse(4) using reuse_set(3) [OF reuse(2)] assms(2) by (simp add: pool_wf_def)
  ultimately show ?thesis using assms(2) reuse(5) by (simp add: pool_wf_def)
next
  case (unsupp m m')
  then show ?thesis using assms(2) DeviceHolder_create_Inl [OF unsupp(3)]
    by (simp add: pool_wf_def)
next
  case (fail ex)
  then show ?thesis using assms(2) DeviceHolder_create_Inl [OF fail(3)]
    by (simp add: pool_wf_def)
next
  case (create v)
  from DeviceHolder_create_Inr [OF create(3)]
  have v: "v = length (objects h)" and len: "length (objects h') = Suc (length (objects h))"
    by auto
  have notin: "v \<notin> snd ` set (holders this)" using assms(2) v by (auto simp: pool_wf_def)
  have "distinct (map snd (holders this'))"
    unfolding create(5) using assms(2) notin
    by (intro insertAndCleanUp_distinct) (auto simp: pool_wf_def)
  moreover have "\<forall>r \<in> snd ` set (holders this'). r < length (objects h')"
  proof
    fix r assume "r \<in> snd ` set (holders this')"
    then have "r = length (objects h) \<or> r \<in> snd ` set (holders this)"
      using getOrCreate_pooled [OF assms(1)] by blast
    then show "r < length (objects h')" using assms(2) len by (auto simp: pool_wf_def)
  qed
  ultimately show ?thesis by (simp add: pool_wf_def)
qed


lemma store_wf_set_holder:
  assumes "store_wf h" "device v = device (objects h ! r)"
  shows "store_wf (set_holder h r v)"
proof (cases "r < length (objects h)")
  case True
  have m: "map device ((objects h)[r := v]) = map device (objects h)"
    using assms(2) True by (simp add: map_update list_update_same_conv)
  have "\<forall>holder \<in> set ((objects h)[r := v]). device holder < devices_created h"
  proof
    fix holder assume "holder \<in> set ((objects h)[r := v])"
    then have "holder = v \<or> holder \<in> set (objects h)"
      using set_update_subset_insert [of "objects h" r v] by auto
    moreover have "objects h ! r \<in> set (objects h)" using True by simp
    ultimately show "device holder < devices_created h"
      using assms by (auto simp: store_wf_def)
  qed
  then show ?thesis using assms(1) m by (simp add: store_wf_def)
next
  case False
  then show ?thesis using assms(1) by (simp add: store_wf_def list_update_beyond)
qed

lemma pool_wf_set_holder [simp]: "pool_wf this (set_holder h r v) = pool_wf this h"
  by (simp add: pool_wf_def)

lemma deleteByDevice_loop_set: "set (deleteByDevice_loop objs dev es) \<subseteq> set es"
  by (induction objs dev es rule: deleteByDevice_loop.induct) auto

lemma deleteByDevice_loop_distinct:
  "distinct (map snd es) \<Longrightarrow> distinct (map snd (deleteByDevice_loop objs dev es))"
proof (induction es)
  case Nil
  show ?case by simp
next
  case (Cons e es)
  obtain k r where e: "e = (k, r)" by (cases e)
  have "snd ` set (deleteByDevice_loop objs dev es) \<subseteq> snd ` set es"
    using deleteByDevice_loop_set [of objs dev es] by blast
  then show ?case using Cons by (auto simp: e)
qed

lemma pool_wf_deleteByDevice:
  "pool_wf this h \<Longrightarrow> pool_wf (deleteByDevice objs this dev) h"
  using deleteByDevice_loop_set [of objs dev "holders this"]
  by (auto simp: pool_wf_def deleteByDevice_def deleteByDevice_loop_distinct)

text \<open>The pool after \<open>release\<close>: as before, or without the entry of the device.\<close>

lemma release_pool:
  assumes "fst dh = pool this"
  shows "fst (snd (release host dh holder)) = pool this \<or>
         fst (snd (release host dh holder)) =
           pool (deleteByDevice
                  ((objects (snd dh))[holder := snd (release_try host (objects (snd dh) ! holder))])
                  this (device (objects (snd dh) ! holder)))"
proof -
  obtain r b where rt: "release_try host (objects (snd dh) ! holder) = (r, b)"
    by (cases "release_try host (objects (snd dh) ! holder)")
  have db: "device b = device (objects (snd dh) ! holder)"
    using release_try_device [of host "objects (snd dh) ! holder"] rt by simp
  show ?thesis using assms rt db
    by (auto simp: release_def assert_def Let_def split: sum.splits prod.splits)
qed

lemma release_not_pool:
  assumes "\<forall>this. fst dh \<noteq> pool this"
  shows "snd (release host dh holder) = dh"
  using assms by (cases "fst dh") (auto simp: release_def)

lemma release_store:
  "devices_created (snd (snd (release host dh holder))) = devices_created (snd dh) \<and>
   create_calls (snd (snd (release host dh holder))) = create_calls (snd dh)"
proof (cases "fst dh")
  case (pool this)
  then show ?thesis
    by (cases "release_try host (objects (snd dh) ! holder)")
       (auto simp: release_def assert_def Let_def split: sum.splits prod.splits)
qed (simp_all add: release_def)

lemma release_wf:
  assumes "well_formed dh"
  shows "well_formed (snd (release host dh holder))"
proof (cases "fst dh")
  case (pool this)
  let ?h = "snd dh"
  let ?h' = "snd (snd (release host dh holder))"
  have swf: "store_wf ?h" and pwf: "pool_wf this ?h" using assms pool by (auto simp: well_formed_def)
  have dev: "devices_created ?h' = devices_created ?h" by (simp add: release_store)
  have "objects ?h' = objects ?h \<or>
        objects ?h' = objects (set_holder ?h holder
           ((snd (release_try host (objects ?h ! holder)))\<lparr>state := free\<rparr>))"
    using release_objects [OF pool, of host holder] by (auto split: if_splits)
  moreover have "store_wf (set_holder ?h holder
           ((snd (release_try host (objects ?h ! holder)))\<lparr>state := free\<rparr>))"
    using swf by (rule store_wf_set_holder) simp
  ultimately have s': "store_wf ?h'" using swf dev by (auto simp: store_wf_def)
  have len: "length (objects ?h') = length (objects ?h)" by simp
  from release_pool [OF pool, of host holder]
  obtain this' where t: "fst (snd (release host dh holder)) = pool this'" "pool_wf this' ?h"
    using pwf pool_wf_deleteByDevice by blast
  have "pool_wf this' ?h'" using t(2) len by (simp add: pool_wf_def)
  then show ?thesis using s' t(1) by (simp add: well_formed_def)
qed (use assms release_not_pool [of dh host holder] in auto)

subsection \<open>Well-formedness is kept by every run\<close>

lemma pool_wf_new [simp]: "pool_wf (new_DeviceHolderPool n) h"
  by (simp add: pool_wf_def new_DeviceHolderPool_def)

lemma initialize_wf:
  assumes "well_formed dh" "initialize ci host dh = (res, h1)"
  shows "store_wf h1 \<and> (case res of Inr this1 \<Rightarrow> pool_wf this1 h1 | Inl m \<Rightarrow> objects h1 = [])"
proof (cases "fst dh")
  case uninitialized
  obtain r this1 h' where g:
    "getOrCreate ci host (new_DeviceHolderPool kDevicePoolSize, snd dh) None = (r, this1, h')"
    by (cases "getOrCreate ci host (new_DeviceHolderPool kDevicePoolSize, snd dh) None")
  have e: "objects (snd dh) = []" and s: "store_wf (snd dh)"
    using assms(1) uninitialized by (auto simp: well_formed_def)
  have s': "store_wf h'" using g s by (rule getOrCreate_store_wf)
  have p': "pool_wf this1 h'" using g by (rule getOrCreate_pool_wf) simp
  show ?thesis
  proof (cases r)
    case (Inl ex)
    have "objects h' = []" using getOrCreate_store [OF g] e Inl by auto
    moreover have "h1 = h'" using assms(2) uninitialized g Inl by (simp add: initialize_def)
    moreover have "\<exists>m. res = Inl m" using assms(2) uninitialized g Inl
      by (auto simp: initialize_def)
    ultimately show ?thesis using s' by auto
  next
    case (Inr v)
    have "h1 = h'" "res = Inr this1" using assms(2) uninitialized g Inr
      by (auto simp: initialize_def)
    then show ?thesis using s' p' by simp
  qed
next
  case failed
  then show ?thesis using assms by (auto simp: initialize_def well_formed_def)
next
  case (pool this)
  then show ?thesis using assms by (auto simp: initialize_def well_formed_def)
qed

lemma reserve_wf:
  assumes "well_formed dh"
  shows "well_formed (snd (reserve ci host dh d))"
proof -
  obtain res h1 where i: "initialize ci host dh = (res, h1)"
    by (cases "initialize ci host dh")
  note w1 = initialize_wf [OF assms i]
  show ?thesis
  proof (cases res)
    case (Inl m)
    then show ?thesis using i w1 by (simp add: reserve_def well_formed_def)
  next
    case (Inr this1)
    obtain r this2 h2 where g: "getOrCreate ci host (this1, h1) d = (r, this2, h2)"
      by (cases "getOrCreate ci host (this1, h1) d")
    have s2: "store_wf h2" using g w1 by (auto intro: getOrCreate_store_wf)
    have p2: "pool_wf this2 h2" using g w1 Inr by (auto intro: getOrCreate_pool_wf)
    show ?thesis
    proof (cases r)
      case (Inl ex)
      then show ?thesis using i Inr g s2 p2 by (simp add: reserve_def well_formed_def)
    next
      case r: (Inr v)
      have "store_wf (set_holder h2 v ((objects h2 ! v)\<lparr>state := reserved\<rparr>))"
        using s2 by (rule store_wf_set_holder) simp
      then show ?thesis using i Inr g r s2 p2
        by (auto simp: reserve_def well_formed_def split: option.splits)
    qed
  qed
qed

lemma step_wf:
  assumes "well_formed dh"
  shows "well_formed (step ci host dh x)"
proof (cases x)
  case (Reserve d)
  then show ?thesis using assms by (simp add: reserve_wf)
next
  case (Acquire r)
  have "store_wf (set_holder (snd dh) r ((objects (snd dh) ! r)\<lparr>state := acquired\<rparr>))"
    using assms by (intro store_wf_set_holder) (auto simp: well_formed_def)
  then show ?thesis using assms Acquire
    by (auto simp: well_formed_def acquire_def assert_def split: DevicePool.splits)
next
  case (ExpectDeviceLost r rsn)
  have "store_wf (set_holder (snd dh) r ((objects (snd dh) ! r)\<lparr>expectedLostReason := Some rsn\<rparr>))"
    using assms by (intro store_wf_set_holder) (auto simp: well_formed_def)
  then show ?thesis using assms ExpectDeviceLost
    by (auto simp: well_formed_def expectDeviceLost_def split: DevicePool.splits)
next
  case (DeviceLost r ev)
  have "store_wf (set_holder (snd dh) r ((objects (snd dh) ! r)\<lparr>lostInfo := Some ev\<rparr>))"
    using assms by (intro store_wf_set_holder) (auto simp: well_formed_def)
  then show ?thesis using assms DeviceLost
    by (auto simp: well_formed_def on_device_lost_def split: DevicePool.splits)
next
  case (Release rh r)
  then show ?thesis using assms by (simp add: release_wf)
qed

lemma run_wf: "well_formed dh \<Longrightarrow> well_formed (run ci host dh ops)"
  unfolding run_def by (induction ops arbitrary: dh) (simp_all add: step_wf)

lemma well_formed_initial: "well_formed initial"
  by (simp add: well_formed_def initial_def store_wf_def)

lemma run_append: "run ci host dh (ops @ ops') = run ci host (run ci host dh ops) ops'"
  by (simp add: run_def)

subsection \<open>Release and removal\<close>

lemma well_formed_pool:
  assumes "well_formed dh" "holder < length (objects (snd dh))"
  obtains this where "fst dh = pool this" "pool_wf this (snd dh)" "store_wf (snd dh)"
  using assms by (cases "fst dh") (auto simp: well_formed_def)

lemma reserve_None_initial:
  "reserve one_limit willing_host initial None =
     (Inr 0, pool \<lparr>poolSize = 20, unsupported = {}, holders = [([], 0)]\<rparr>,
      \<lparr>objects = [\<lparr>device = 0, state = reserved, lostInfo = None, expectedLostReason = None\<rparr>],
       destroy_calls = [], create_calls = 1, devices_created = 1\<rparr>)"
  by (simp add: reserve_def initialize_def initial_def getOrCreate_def canonicalizeDescriptor_def
        new_DeviceHolderPool_def kDevicePoolSize_def DeviceHolder_create_def willing_host_def
        supportsFeature_def insertAndCleanUp_def splice1_def assert_def set_holder_def
        JSON_stringify_opt_def Let_def)

lemma acquired_example_eq:
  "acquired_example =
     (pool \<lparr>poolSize = 20, unsupported = {}, holders = [([], 0)]\<rparr>,
      \<lparr>objects = [\<lparr>device = 0, state = acquired, lostInfo = None, expectedLostReason = None\<rparr>],
       destroy_calls = [], create_calls = 1, devices_created = 1\<rparr>)"
  by (simp add: acquired_example_def run_def reserve_None_initial acquire_def assert_def
        set_holder_def)


lemma release_result:
  assumes "fst dh = pool this" "state (objects (snd dh) ! holder) \<noteq> free"
    "release_try rhost (objects (snd dh) ! holder) = (r, b)"
  shows "release rhost dh holder =
     (case r of
        Inr u \<Rightarrow> (Inr (), pool this, set_holder (snd dh) holder (b\<lparr>state := free\<rparr>))
      | Inl ex \<Rightarrow>
          (if expectedDeviceLost b then Inr () else Inl ex,
           pool (if instanceof_TestFailedButDeviceReusable ex then this
                 else deleteByDevice ((objects (snd dh))[holder := b]) this (device b)),
           (set_holder (snd dh) holder (b\<lparr>state := free\<rparr>))
             \<lparr>destroy_calls :=
                if \<not> instanceof_TestFailedButDeviceReusable ex \<and> has_destroy rhost
                then destroy_calls (snd dh) @ [device b] else destroy_calls (snd dh)\<rparr>))"
  using assms
  by (cases r) (auto simp: release_def assert_def Let_def set_holder_def)

lemma deleteByDevice_loop_removes:
  assumes "distinct (map device objs)" "\<forall>r \<in> snd ` set es. r < length objs"
    "distinct (map snd es)" "x < length objs"
  shows "x \<notin> snd ` set (deleteByDevice_loop objs (device (objs ! x)) es)"
  using assms(2,3)
proof (induction es)
  case Nil
  show ?case by simp
next
  case (Cons e es)
  obtain k r where e: "e = (k, r)" by (cases e)
  have r: "r < length objs" using Cons.prems(1) by (simp add: e)
  show ?case
  proof (cases "device (objs ! r) = device (objs ! x)")
    case True
    have "map device objs ! r = map device objs ! x" using True r assms(4) by simp
    moreover have "(map device objs ! r = map device objs ! x) = (r = x)"
      using assms(1) r assms(4) by (intro nth_eq_iff_index_eq) auto
    ultimately have "r = x" by simp
    then have "x \<notin> snd ` set es" using Cons.prems(2) by (simp add: e)
    then show ?thesis using True by (simp add: e)
  next
    case False
    then have "r \<noteq> x" by auto
    moreover have "x \<notin> snd ` set (deleteByDevice_loop objs (device (objs ! x)) es)"
      using Cons by (simp add: e)
    ultimately show ?thesis using False by (simp add: e)
  qed
qed

lemma deleteByDevice_removes:
  assumes "store_wf h" "pool_wf this h" "x < length (objects h)"
    "device b = device (objects h ! x)"
  shows "x \<notin> snd ` set (holders (deleteByDevice ((objects h)[x := b]) this (device b)))"
proof -
  let ?objs = "(objects h)[x := b]"
  have m: "map device ?objs = map device (objects h)"
    using assms(3,4) by (simp add: map_update list_update_same_conv)
  have "distinct (map device ?objs)" using assms(1) m by (simp add: store_wf_def)
  moreover have "\<forall>r \<in> snd ` set (holders this). r < length ?objs"
    using assms(2) by (simp add: pool_wf_def)
  moreover have "distinct (map snd (holders this))" using assms(2) by (simp add: pool_wf_def)
  moreover have "x < length ?objs" using assms(3) by simp
  ultimately have "x \<notin> snd ` set (deleteByDevice_loop ?objs (device (?objs ! x)) (holders this))"
    by (rule deleteByDevice_loop_removes)
  moreover have "device (?objs ! x) = device b" using assms(3) by simp
  ultimately show ?thesis by (simp add: deleteByDevice_def)
qed

lemma release_try_lost:
  assumes "release_try rhost this = (r, b)"
  shows "(\<exists>ex. r = Inl ex) \<longleftrightarrow> (lostInfo b \<noteq> None \<or> (\<exists>ex. fst (ensureRelease rhost this) = Inl ex))"
  using assms
  by (auto simp: release_try_def split: prod.splits sum.splits option.splits)

subsection \<open>What a run keeps of an initialised pool\<close>

lemma evolvesI:
  assumes "fst dh = pool this" "fst dh' = pool this'"
    "poolSize this' = poolSize this" "unsupported this \<subseteq> unsupported this'"
    "length (holders this) \<le> poolSize this \<Longrightarrow> length (holders this') \<le> poolSize this'"
    "length (objects (snd dh)) \<le> length (objects (snd dh'))"
    "snd ` set (holders this') \<subseteq> snd ` set (holders this) \<union> {r. length (objects (snd dh)) \<le> r}"
  shows "evolves dh dh'"
proof -
  have "length (holders this) \<le> poolSize this \<longrightarrow> length (holders this') \<le> poolSize this'"
    using assms(5) by simp
  then have "fst dh = pool this \<and> fst dh' = pool this' \<and>
        poolSize this' = poolSize this \<and>
        unsupported this \<subseteq> unsupported this' \<and>
        (length (holders this) \<le> poolSize this \<longrightarrow> length (holders this') \<le> poolSize this') \<and>
        length (objects (snd dh)) \<le> length (objects (snd dh')) \<and>
        snd ` set (holders this') \<subseteq>
          snd ` set (holders this) \<union> {r. length (objects (snd dh)) \<le> r}"
    using assms(1-4,6,7) by simp
  then show ?thesis unfolding evolves_def by (intro exI)
qed

lemma evolvesE:
  assumes "evolves dh dh'"
  obtains this this' where "fst dh = pool this" "fst dh' = pool this'"
    "poolSize this' = poolSize this" "unsupported this \<subseteq> unsupported this'"
    "length (holders this) \<le> poolSize this \<longrightarrow> length (holders this') \<le> poolSize this'"
    "length (objects (snd dh)) \<le> length (objects (snd dh'))"
    "snd ` set (holders this') \<subseteq> snd ` set (holders this) \<union> {r. length (objects (snd dh)) \<le> r}"
  using assms unfolding evolves_def by blast

lemma evolves_refl: "fst dh = pool this \<Longrightarrow> evolves dh dh"
  by (rule evolvesI [of dh this dh this]) auto

lemma evolves_trans:
  assumes "evolves a b" "evolves b c"
  shows "evolves a c"
proof -
  from assms(1) obtain p1 p2 where 1: "fst a = pool p1" "fst b = pool p2"
    "poolSize p2 = poolSize p1" "unsupported p1 \<subseteq> unsupported p2"
    "length (holders p1) \<le> poolSize p1 \<longrightarrow> length (holders p2) \<le> poolSize p2"
    "length (objects (snd a)) \<le> length (objects (snd b))"
    "snd ` set (holders p2) \<subseteq> snd ` set (holders p1) \<union> {r. length (objects (snd a)) \<le> r}"
    by (rule evolvesE)
  from assms(2) obtain p2' p3 where 2: "fst b = pool p2'" "fst c = pool p3"
    "poolSize p3 = poolSize p2'" "unsupported p2' \<subseteq> unsupported p3"
    "length (holders p2') \<le> poolSize p2' \<longrightarrow> length (holders p3) \<le> poolSize p3"
    "length (objects (snd b)) \<le> length (objects (snd c))"
    "snd ` set (holders p3) \<subseteq> snd ` set (holders p2') \<union> {r. length (objects (snd b)) \<le> r}"
    by (rule evolvesE)
  have eq: "p2' = p2" using 1(2) 2(1) by simp
  show ?thesis
  proof (rule evolvesI [of a p1 c p3])
    show "fst a = pool p1" by (rule 1(1))
    show "fst c = pool p3" by (rule 2(2))
    show "poolSize p3 = poolSize p1" using 1(3) 2(3) eq by simp
    show "unsupported p1 \<subseteq> unsupported p3" using 1(4) 2(4) eq by blast
    show "length (holders p3) \<le> poolSize p3" if "length (holders p1) \<le> poolSize p1"
      using 1(5) that 2(5) eq by simp
    show "length (objects (snd a)) \<le> length (objects (snd c))" using 1(6) 2(6) by simp
    show "snd ` set (holders p3) \<subseteq> snd ` set (holders p1) \<union> {r. length (objects (snd a)) \<le> r}"
    proof
      fix x assume "x \<in> snd ` set (holders p3)"
      then have "x \<in> snd ` set (holders p2) \<or> length (objects (snd b)) \<le> x"
        using 2(7) eq by blast
      then show "x \<in> snd ` set (holders p1) \<union> {r. length (objects (snd a)) \<le> r}"
        using 1(6,7) by auto
    qed
  qed
qed

lemma getOrCreate_length:
  assumes "getOrCreate ci host (this, h) d = (r, this', h')"
  shows "poolSize this' = poolSize this \<and> unsupported this \<subseteq> unsupported this' \<and>
         (length (holders this) \<le> poolSize this \<longrightarrow> length (holders this') \<le> poolSize this')"
  using assms
proof (cases rule: getOrCreate_cases)
  case (reuse i k v)
  then show ?thesis using reuse_set(4) [OF reuse(2)] by simp
next
  case (create v)
  then show ?thesis by (auto simp: insertAndCleanUp_holders)
qed auto

lemma getOrCreate_evolves:
  assumes "getOrCreate ci host (this, h) d = (r, this', h')"
  shows "evolves (pool this, h) (pool this', h')"
proof (rule evolvesI [of _ this _ this'])
  show "length (objects (snd (pool this, h))) \<le> length (objects (snd (pool this', h')))"
    using getOrCreate_store [OF assms] by auto
  show "snd ` set (holders this') \<subseteq>
      snd ` set (holders this) \<union> {r. length (objects (snd (pool this, h))) \<le> r}"
    using getOrCreate_pooled [OF assms] by auto
qed (use getOrCreate_length [OF assms] in simp_all)

lemma evolves_store:
  assumes "evolves dh (dp', h')" "length (objects h'') = length (objects h')"
  shows "evolves dh (dp', h'')"
proof -
  from assms(1) obtain this this' where e: "fst dh = pool this" "fst (dp', h') = pool this'"
    "poolSize this' = poolSize this" "unsupported this \<subseteq> unsupported this'"
    "length (holders this) \<le> poolSize this \<longrightarrow> length (holders this') \<le> poolSize this'"
    "length (objects (snd dh)) \<le> length (objects (snd (dp', h')))"
    "snd ` set (holders this') \<subseteq> snd ` set (holders this) \<union> {r. length (objects (snd dh)) \<le> r}"
    by (rule evolvesE)
  show ?thesis
  proof (rule evolvesI [of dh this _ this'])
    show "fst dh = pool this" by (rule e(1))
    show "fst (dp', h'') = pool this'" using e(2) by simp
    show "poolSize this' = poolSize this" by (rule e(3))
    show "unsupported this \<subseteq> unsupported this'" by (rule e(4))
    show "length (holders this') \<le> poolSize this'" if "length (holders this) \<le> poolSize this"
      using e(5) that by simp
    show "length (objects (snd dh)) \<le> length (objects (snd (dp', h'')))"
      using e(6) assms(2) by simp
    show "snd ` set (holders this') \<subseteq> snd ` set (holders this) \<union> {r. length (objects (snd dh)) \<le> r}"
      by (rule e(7))
  qed
qed

lemma evolves_set_holder:
  assumes "evolves dh (dp', h')"
  shows "evolves dh (dp', set_holder h' r v)"
  using assms by (rule evolves_store) simp

lemma initialize_pool: "fst dh = pool this \<Longrightarrow> initialize ci host dh = (Inr this, snd dh)"
  by (simp add: initialize_def)

lemma reserve_from:
  assumes "initialize ci host dh = (Inr this1, h1)"
  shows "evolves (pool this1, h1) (snd (reserve ci host dh d))"
proof -
  obtain r this2 h2 where g: "getOrCreate ci host (this1, h1) d = (r, this2, h2)"
    by (cases "getOrCreate ci host (this1, h1) d")
  have e: "evolves (pool this1, h1) (pool this2, h2)" using g by (rule getOrCreate_evolves)
  show ?thesis
  proof (cases r)
    case (Inl ex)
    then show ?thesis using assms g e by (simp add: reserve_def)
  next
    case (Inr v)
    then show ?thesis using assms g e evolves_set_holder [OF e]
      by (auto simp: reserve_def split: option.splits)
  qed
qed

lemma reserve_evolves:
  assumes "fst dh = pool this"
  shows "evolves dh (snd (reserve ci host dh d))"
proof -
  have "evolves (pool this, snd dh) (snd (reserve ci host dh d))"
    using initialize_pool [OF assms] by (rule reserve_from)
  moreover have "dh = (pool this, snd dh)" using assms by (cases dh) simp
  ultimately show ?thesis by simp
qed

lemma deleteByDevice_loop_length: "length (deleteByDevice_loop objs dev es) \<le> length es"
  by (induction objs dev es rule: deleteByDevice_loop.induct) auto

lemma release_evolves:
  assumes "fst dh = pool this"
  shows "evolves dh (snd (release rhost dh holder))"
proof -
  let ?R = "snd (release rhost dh holder)"
  have len: "length (objects (snd dh)) \<le> length (objects (snd ?R))" by simp
  from release_pool [OF assms, of rhost holder] show ?thesis
  proof
    assume same: "fst ?R = pool this"
    show ?thesis by (rule evolvesI [OF assms same]) (use len in auto)
  next
    let ?del = "deleteByDevice
        ((objects (snd dh))[holder := snd (release_try rhost (objects (snd dh) ! holder))])
        this (device (objects (snd dh) ! holder))"
    assume del: "fst ?R = pool ?del"
    have l: "length (holders ?del) \<le> length (holders this)"
      by (simp add: deleteByDevice_def deleteByDevice_loop_length)
    have s: "set (holders ?del) \<subseteq> set (holders this)"
      by (simp add: deleteByDevice_def deleteByDevice_loop_set)
    show ?thesis
    proof (rule evolvesI [OF assms del])
      show "poolSize ?del = poolSize this" by (simp add: deleteByDevice_def)
      show "unsupported this \<subseteq> unsupported ?del" by (simp add: deleteByDevice_def)
      show "length (holders ?del) \<le> poolSize ?del" if "length (holders this) \<le> poolSize this"
        using l that by (simp add: deleteByDevice_def)
      show "length (objects (snd dh)) \<le> length (objects (snd ?R))" by (rule len)
      show "snd ` set (holders ?del) \<subseteq>
          snd ` set (holders this) \<union> {r. length (objects (snd dh)) \<le> r}"
        using s by blast
    qed
  qed
qed

lemma acquire_length [simp]: "length (objects (snd (acquire h r))) = length (objects h)"
  by (simp add: acquire_def assert_def)

lemma expectDeviceLost_length [simp]:
  "length (objects (expectDeviceLost h r rsn)) = length (objects h)"
  by (simp add: expectDeviceLost_def)

lemma on_device_lost_length [simp]:
  "length (objects (on_device_lost h r ev)) = length (objects h)"
  by (simp add: on_device_lost_def)

lemma evolves_same_pool:
  assumes "fst dh = pool this" "length (objects h') = length (objects (snd dh))"
  shows "evolves dh (fst dh, h')"
proof -
  have "evolves dh (fst dh, snd dh)" using evolves_refl [OF assms(1)] by simp
  then show ?thesis using assms(2) by (rule evolves_store)
qed

lemma step_evolves:
  assumes "fst dh = pool this"
  shows "evolves dh (step ci host dh x)"
proof (cases x)
  case (Reserve d)
  then show ?thesis using assms by (simp add: reserve_evolves)
next
  case (Release rh r)
  then show ?thesis using assms evolves_refl [OF assms] by (simp add: release_evolves)
next
  case (Acquire r)
  have "evolves dh (fst dh, snd (acquire (snd dh) r))"
    using assms by (rule evolves_same_pool) simp
  then show ?thesis using Acquire evolves_refl [OF assms] by simp
next
  case (ExpectDeviceLost r rsn)
  have "evolves dh (fst dh, expectDeviceLost (snd dh) r rsn)"
    using assms by (rule evolves_same_pool) simp
  then show ?thesis using ExpectDeviceLost evolves_refl [OF assms] by simp
next
  case (DeviceLost r ev)
  have "evolves dh (fst dh, on_device_lost (snd dh) r ev)"
    using assms by (rule evolves_same_pool) simp
  then show ?thesis using DeviceLost evolves_refl [OF assms] by simp
qed

lemma run_evolves:
  assumes "fst dh = pool this"
  shows "evolves dh (run ci host dh ops)"
  using assms
proof (induction ops arbitrary: dh this)
  case Nil
  then show ?case by (simp add: run_def evolves_refl)
next
  case (Cons x ops)
  have 1: "evolves dh (step ci host dh x)" using Cons.prems by (rule step_evolves)
  then obtain this' where "fst (step ci host dh x) = pool this'" by (rule evolvesE)
  then have "evolves (step ci host dh x) (run ci host (step ci host dh x) ops)" by (rule Cons.IH)
  with 1 have "evolves dh (run ci host (step ci host dh x) ops)" by (rule evolves_trans)
  then show ?case by (simp add: run_def)
qed

subsection \<open>Three releases of the example\<close>

lemma release_invalid_then_lost:
  "release invalid_then_lost acquired_example 0 =
     (Inl (TestFailedButDeviceReusable ''Unexpected validation error occurred: bad''),
      pool \<lparr>poolSize = 20, unsupported = {}, holders = [([], 0)]\<rparr>,
      \<lparr>objects = [\<lparr>device = 0, state = free,
                    lostInfo = Some \<lparr>reason = unknown, message = ''crash''\<rparr>,
                    expectedLostReason = None\<rparr>],
       destroy_calls = [], create_calls = 1, devices_created = 1\<rparr>)"
  by (simp add: acquired_example_eq release_def release_try_def ensureRelease_def
        DeviceHolder_release_def invalid_then_lost_def quiet_release_def lost_during_def
        check_popped_def assert_def expectedDeviceLost_def set_holder_def Let_def)

lemma release_lost_at_once:
  "release lost_at_once acquired_example 0 =
     (Inl (HostError ''OperationError'' ''lost''),
      pool \<lparr>poolSize = 20, unsupported = {}, holders = []\<rparr>,
      \<lparr>objects = [\<lparr>device = 0, state = free,
                    lostInfo = Some \<lparr>reason = destroyed, message = ''gone''\<rparr>,
                    expectedLostReason = None\<rparr>],
       destroy_calls = [0], create_calls = 1, devices_created = 1\<rparr>)"
  by (simp add: acquired_example_eq release_def release_try_def ensureRelease_def
        DeviceHolder_release_def lost_at_once_def quiet_release_def lost_during_def
        pop_failed_def deleteByDevice_def
        check_popped_def assert_def expectedDeviceLost_def set_holder_def Let_def)

lemma release_quiet:
  "release quiet_release acquired_example 0 =
     (Inr (),
      pool \<lparr>poolSize = 20, unsupported = {}, holders = [([], 0)]\<rparr>,
      \<lparr>objects = [\<lparr>device = 0, state = free, lostInfo = None, expectedLostReason = None\<rparr>],
       destroy_calls = [], create_calls = 1, devices_created = 1\<rparr>)"
  by (simp add: acquired_example_eq release_def release_try_def ensureRelease_def
        DeviceHolder_release_def quiet_release_def lost_during_def
        check_popped_def assert_def expectedDeviceLost_def set_holder_def Let_def)

subsection \<open>Release after a failure\<close>

lemma pooled_pool [simp]: "pooled (pool this) = snd ` set (holders this)"
  by (simp add: pooled_def)

lemma expectedDeviceLost_iff:
  "lostInfo b = Some li \<Longrightarrow>
   expectedDeviceLost b \<longleftrightarrow> expectedLostReason b = Some (reason li)"
  by (auto simp: expectedDeviceLost_def)

lemma expectedDeviceLost_state [simp]:
  "expectedDeviceLost (b\<lparr>state := s\<rparr>) = expectedDeviceLost b"
  by (simp add: expectedDeviceLost_def)

lemma release_try_Inr:
  "release_try rhost this = (Inr u, b) \<Longrightarrow> lostInfo b = None"
  by (auto simp: release_try_def split: prod.splits sum.splits option.splits)

text \<open>What \<open>release\<close> does once its \<open>try\<close> block has thrown.\<close>

lemma release_after_throw:
  assumes wf: "well_formed dh" and h: "holder < length (objects (snd dh))"
    and nf: "state (objects (snd dh) ! holder) \<noteq> free"
    and rt: "release_try rhost (objects (snd dh) ! holder) = (Inl ex, b)"
    and rel: "release rhost dh holder = (result, dp', h')"
  shows "objects h' ! holder = b\<lparr>state := free\<rparr>"
    and "result = (if expectedDeviceLost b then Inr () else Inl ex)"
    and "\<not> instanceof_TestFailedButDeviceReusable ex \<Longrightarrow> holder \<notin> pooled dp'"
    and "\<not> instanceof_TestFailedButDeviceReusable ex \<Longrightarrow> has_destroy rhost \<Longrightarrow>
           device (objects (snd dh) ! holder) \<in> set (destroy_calls h')"
    and "instanceof_TestFailedButDeviceReusable ex \<Longrightarrow> dp' = fst dh"
    and "\<exists>this'. dp' = pool this'"
    and "length (objects h') = length (objects (snd dh))"
proof -
  from wf h obtain this where p: "fst dh = pool this" "pool_wf this (snd dh)" "store_wf (snd dh)"
    by (rule well_formed_pool)
  have db: "device b = device (objects (snd dh) ! holder)"
    using release_try_device [of rhost "objects (snd dh) ! holder"] rt by simp
  note r = release_result [OF p(1) nf rt, unfolded rel]
  show "objects h' ! holder = b\<lparr>state := free\<rparr>" using r h by simp
  show "result = (if expectedDeviceLost b then Inr () else Inl ex)" using r by simp
  show "holder \<notin> pooled dp'" if "\<not> instanceof_TestFailedButDeviceReusable ex"
    using r that deleteByDevice_removes [OF p(3) p(2) h db] by simp
  show "device (objects (snd dh) ! holder) \<in> set (destroy_calls h')"
    if "\<not> instanceof_TestFailedButDeviceReusable ex" "has_destroy rhost"
    using r that db by simp
  show "dp' = fst dh" if "instanceof_TestFailedButDeviceReusable ex"
    using r that p(1) by simp
  show "\<exists>this'. dp' = pool this'" using r by simp
  show "length (objects h') = length (objects (snd dh))" using r by simp
qed

lemma reserve_result:
  assumes "initialize ci host dh = (Inr this1, h1)" "fst (reserve ci host dh d) = Inr v"
  shows "\<exists>this2 h2. getOrCreate ci host (this1, h1) d = (Inr v, this2, h2)"
proof -
  obtain r this2 h2 where g: "getOrCreate ci host (this1, h1) d = (r, this2, h2)"
    by (cases "getOrCreate ci host (this1, h1) d")
  have "r = Inr v" using assms g
    by (cases r) (auto simp: reserve_def split: option.splits)
  then show ?thesis using g by blast
qed

lemma never_reused:
  assumes "fst dh = pool this" "x < length (objects (snd dh))" "x \<notin> pooled (fst dh)"
  shows "fst (reserve ci host (run ci host dh ops) d) \<noteq> Inr x"
proof
  let ?dh2 = "run ci host dh ops"
  assume a: "fst (reserve ci host ?dh2 d) = Inr x"
  from run_evolves [OF assms(1), of ci host ops] obtain p1 p2 where
    e: "fst dh = pool p1" "fst ?dh2 = pool p2"
       "length (objects (snd dh)) \<le> length (objects (snd ?dh2))"
       "snd ` set (holders p2) \<subseteq> snd ` set (holders p1) \<union> {r. length (objects (snd dh)) \<le> r}"
    by (rule evolvesE)
  have notin: "x \<notin> snd ` set (holders p2)" using e(1,4) assms(2,3) by auto
  have lt: "x < length (objects (snd ?dh2))" using e(3) assms(2) by simp
  from reserve_result [OF initialize_pool [OF e(2)] a]
  obtain this3 h3 where "getOrCreate ci host (p2, snd ?dh2) d = (Inr x, this3, h3)" by blast
  from getOrCreate_result [OF this] show False using notin lt by auto
qed

subsection \<open>The example with an expected loss\<close>

lemma expecting_example_eq:
  "expecting_example =
     (pool \<lparr>poolSize = 20, unsupported = {}, holders = [([], 0)]\<rparr>,
      \<lparr>objects = [\<lparr>device = 0, state = acquired, lostInfo = None,
                    expectedLostReason = Some destroyed\<rparr>],
       destroy_calls = [], create_calls = 1, devices_created = 1\<rparr>)"
  by (simp add: expecting_example_def run_def reserve_None_initial acquire_def assert_def
        set_holder_def expectDeviceLost_def)

lemma expecting_example_run:
  "expecting_example =
     run one_limit willing_host initial [Reserve None, Acquire 0, ExpectDeviceLost 0 destroyed]"
  by (simp add: expecting_example_def)

lemma release_try_expected_loss:
  "release_try lost_at_once (objects (snd expecting_example) ! 0) =
     (Inl (HostError ''OperationError'' ''lost''),
      \<lparr>device = 0, state = free, lostInfo = Some \<lparr>reason = destroyed, message = ''gone''\<rparr>,
       expectedLostReason = Some destroyed\<rparr>)"
  by (simp add: expecting_example_eq release_try_def ensureRelease_def
        DeviceHolder_release_def lost_at_once_def quiet_release_def lost_during_def
        pop_failed_def assert_def Let_def)

lemma release_expected_loss:
  "release lost_at_once expecting_example 0 =
     (Inr (),
      pool \<lparr>poolSize = 20, unsupported = {}, holders = []\<rparr>,
      \<lparr>objects = [\<lparr>device = 0, state = free,
                    lostInfo = Some \<lparr>reason = destroyed, message = ''gone''\<rparr>,
                    expectedLostReason = Some destroyed\<rparr>],
       destroy_calls = [0], create_calls = 1, devices_created = 1\<rparr>)"
  by (simp add: expecting_example_eq release_def release_try_def ensureRelease_def
        DeviceHolder_release_def lost_at_once_def quiet_release_def lost_during_def
        pop_failed_def deleteByDevice_def
        check_popped_def assert_def expectedDeviceLost_def set_holder_def Let_def)

lemma reserve_after_expected_loss:
  "fst (reserve one_limit willing_host (snd (release lost_at_once expecting_example 0)) None) = Inr 1"
  by (simp add: release_expected_loss reserve_def initialize_def getOrCreate_def
        canonicalizeDescriptor_def DeviceHolder_create_def willing_host_def
        supportsFeature_def insertAndCleanUp_def assert_def set_holder_def Let_def)

lemma reserve_after_unexpected_loss:
  "fst (reserve one_limit willing_host (snd (release invalid_then_lost acquired_example 0)) None) = Inr 0"
  by (simp add: release_invalid_then_lost reserve_def initialize_def getOrCreate_def
        canonicalizeDescriptor_def splice1_def assert_def set_holder_def Let_def)

subsection \<open>The negative cache, the bound and two more examples\<close>

lemma getOrCreate_unsupported:
  assumes "snd (canonicalizeDescriptor ci d) \<in> unsupported this"
  shows "getOrCreate ci host (this, h) d =
     (Inl (SkipTestCase (''GPUDeviceDescriptor previously failed: '' @
             JSON_stringify_opt (fst (canonicalizeDescriptor ci d)))), this, h)"
  using assms by (cases "canonicalizeDescriptor ci d") (simp add: getOrCreate_def)

lemma getOrCreate_FeaturesNotSupported:
  assumes "DeviceHolder_create host h (fst (canonicalizeDescriptor ci d)) =
             (Inl (FeaturesNotSupported m), h1)"
    and "snd (canonicalizeDescriptor ci d) \<notin> unsupported this"
    and "search_free (objects h) 0 (holders this) = None"
  shows "getOrCreate ci host (this, h) d =
     (Inl (SkipTestCase (''GPUDeviceDescriptor not supported: '' @
             JSON_stringify_opt (fst (canonicalizeDescriptor ci d)) @ [CHR 0x0A] @ m)),
      this\<lparr>unsupported := insert (snd (canonicalizeDescriptor ci d)) (unsupported this)\<rparr>, h1)"
  using assms by (cases "canonicalizeDescriptor ci d") (simp add: getOrCreate_def)

lemma timestamp_keys:
  "snd (canonicalizeDescriptor one_limit (Some timestamp_descriptor')) = timestamp_key"
  "timestamp_key \<noteq> []"
  by (simp_all add: timestamp_key_def canonicalizeDescriptor_def timestamp_descriptor_def
        timestamp_descriptor'_def one_limit_def Set_values_def JSON_stringify_def Let_def)


lemma timestamp_canonical:
  "fst (canonicalizeDescriptor one_limit (Some timestamp_descriptor)) =
     Some \<lparr>requiredFeatures' = [''timestamp-query''], requiredLimits' = []\<rparr>"
  by (simp add: canonicalizeDescriptor_def timestamp_descriptor_def Set_values_def Let_def)

lemma create_on_bare_host:
  "DeviceHolder_create bare_host (snd initial)
     (fst (canonicalizeDescriptor one_limit (Some timestamp_descriptor))) =
   (Inl (FeaturesNotSupported ''One or more features are not supported''),
    \<lparr>objects = [], destroy_calls = [], create_calls = 1, devices_created = 0\<rparr>)"
  by (simp add: timestamp_canonical DeviceHolder_create_def bare_host_def initial_def
        supportsFeature_def Let_def)

lemma bounded_evolves:
  assumes "evolves dh dh'" "bounded dh"
  shows "bounded dh'"
proof -
  from assms(1) obtain this this' where e: "fst dh = pool this" "fst dh' = pool this'"
    "poolSize this' = poolSize this"
    "length (holders this) \<le> poolSize this \<longrightarrow> length (holders this') \<le> poolSize this'"
    by (rule evolvesE)
  then show ?thesis using assms(2) by (simp add: bounded_def)
qed

lemma bounded_new: "bounded (pool (new_DeviceHolderPool kDevicePoolSize), h)"
  by (simp add: bounded_def new_DeviceHolderPool_def)

lemma reserve_bounded:
  assumes "bounded dh"
  shows "bounded (snd (reserve ci host dh d))"
proof (cases "fst dh")
  case (pool this)
  then show ?thesis using assms reserve_evolves bounded_evolves by blast
next
  case failed
  then show ?thesis by (simp add: reserve_def initialize_def bounded_def)
next
  case uninitialized
  obtain r this1 h1 where g:
    "getOrCreate ci host (new_DeviceHolderPool kDevicePoolSize, snd dh) None = (r, this1, h1)"
    by (cases "getOrCreate ci host (new_DeviceHolderPool kDevicePoolSize, snd dh) None")
  show ?thesis
  proof (cases r)
    case (Inl ex)
    then show ?thesis using uninitialized g by (simp add: reserve_def initialize_def bounded_def)
  next
    case (Inr v)
    have i: "initialize ci host dh = (Inr this1, h1)"
      using uninitialized g Inr by (simp add: initialize_def)
    have "bounded (pool this1, h1)"
      using getOrCreate_evolves [OF g] bounded_new by (rule bounded_evolves)
    with reserve_from [OF i] show ?thesis by (rule bounded_evolves)
  qed
qed

lemma step_bounded:
  assumes "bounded dh"
  shows "bounded (step ci host dh x)"
proof (cases "\<exists>this. fst dh = pool this")
  case True
  then obtain this where "fst dh = pool this" by blast
  then have "evolves dh (step ci host dh x)" by (rule step_evolves)
  then show ?thesis using assms by (rule bounded_evolves)
next
  case False
  show ?thesis
  proof (cases x)
    case (Reserve d)
    then show ?thesis using assms by (simp add: reserve_bounded)
  next
    case (Release rh r)
    then show ?thesis using assms False release_not_pool [of dh rh r] by simp
  qed (use assms in \<open>auto simp: bounded_def\<close>)
qed

lemma run_bounded: "bounded dh \<Longrightarrow> bounded (run ci host dh ops)"
  unfolding run_def by (induction ops arbitrary: dh) (simp_all add: step_bounded)

lemma bounded_initial: "bounded initial"
  by (simp add: bounded_def initial_def)

lemma crowd_eq:
  "fst crowd = pool \<lparr>poolSize = 20, unsupported = {}, holders = map (Pair []) [1..<21]\<rparr> \<and>
   map state (objects (snd crowd)) = replicate 21 reserved"
  unfolding crowd_def by code_simp

lemma two_free_example_eq:
  "two_free_example =
     (pool \<lparr>poolSize = 20, unsupported = {}, holders = [([], 0), (timestamp_key, 1)]\<rparr>,
      \<lparr>objects = [\<lparr>device = 0, state = free, lostInfo = None, expectedLostReason = None\<rparr>,
                   \<lparr>device = 1, state = free, lostInfo = None, expectedLostReason = None\<rparr>],
       destroy_calls = [], create_calls = 2, devices_created = 2\<rparr>)"
  unfolding two_free_example_def timestamp_key_def by code_simp

text \<open>
  What the search of \<open>getOrCreate\<close> does for any descriptor whose key is not known to be
  unsupported: the first free holder of the list is returned, whatever its key, and its
  entry moves to the end of the list.
\<close>

lemma getOrCreate_first_free:
  assumes "snd (canonicalizeDescriptor ci d) \<notin> unsupported this"
    and "search_free (objects h) 0 (holders this) = Some (i, k, v)"
  shows "getOrCreate ci host (this, h) d =
     (Inr v, this\<lparr>holders := splice1 i (holders this) @ [(k, v)]\<rparr>, h)"
  using assms by (cases "canonicalizeDescriptor ci d") (simp add: getOrCreate_def)

subsection \<open>Release always frees the holder\<close>

text \<open>
  C2: in every state that a run of the pool can reach, \<open>DevicePool.release\<close> on a holder
  whose state is not \<open>free\<close> leaves the state of that holder \<open>free\<close>, whatever the host
  answers during the release and whether \<open>release\<close> returns or throws: the conclusion
  does not depend on the result. (In a reachable state with a holder the pool is
  initialised, so the two assertions before the \<open>try\<close> hold.)
\<close>

theorem release_always_frees:
  assumes "dh = run ci host initial ops"
    and "holder < length (objects (snd dh))"
    and "state (objects (snd dh) ! holder) \<noteq> free"
  shows "state (objects (snd (snd (release rhost dh holder))) ! holder) = free"
proof -
  have "well_formed dh" unfolding assms(1) using well_formed_initial by (rule run_wf)
  then obtain this where "fst dh = pool this" using assms(2) by (rule well_formed_pool)
  then show ?thesis using assms(2,3) by (rule release_sets_free)
qed

theorem release_always_frees_witness:
  "0 < length (objects (snd acquired_example)) \<and>
   state (objects (snd acquired_example) ! 0) = acquired \<and>
   fst (release lost_at_once acquired_example 0) = Inl (HostError ''OperationError'' ''lost'') \<and>
   state (objects (snd (snd (release lost_at_once acquired_example 0))) ! 0) = free"
proof -
  have h1: "acquired_example = run one_limit willing_host initial [Reserve None, Acquire 0]"
    by (simp add: acquired_example_def)
  have h2: "0 < length (objects (snd acquired_example))" by (simp add: acquired_example_eq)
  have h3: "state (objects (snd acquired_example) ! 0) \<noteq> free"
    by (simp add: acquired_example_eq)
  have h4: "state (objects (snd acquired_example) ! 0) = acquired"
    by (simp add: acquired_example_eq)
  from release_always_frees [OF h1 h2 h3, of lost_at_once]
  show ?thesis using h2 h4 by (simp add: release_lost_at_once)
qed

text \<open>The same holder released without any incident: \<open>release\<close> returns, and it is free.\<close>

lemma release_returns_and_frees:
  "fst (release quiet_release acquired_example 0) = Inr () \<and>
   state (objects (snd (snd (release quiet_release acquired_example 0))) ! 0) = free"
  by (simp add: release_quiet)

subsection \<open>Release of a holder whose device was lost\<close>

text \<open>
  C3, as the code has it: in every reachable state, when \<open>release\<close> is called on a holder
  that is not free and the device has reported a loss by the end of the call, then: if
  the reason of the loss is the one registered with \<open>expectDeviceLost\<close>, no error comes
  out of \<open>release\<close>; otherwise \<open>release\<close> throws, and unless what it throws is
  \<open>TestFailedButDeviceReusable\<close> the holder is no longer in the list of the pool and
  \<open>destroy()\<close> has been called on its device (when the device has that method).
\<close>

theorem release_after_loss:
  assumes "dh = run ci host initial ops"
    and "holder < length (objects (snd dh))"
    and "state (objects (snd dh) ! holder) \<noteq> free"
    and "release rhost dh holder = (result, dp', h')"
    and "lostInfo (objects h' ! holder) = Some li"
  shows "(expectedLostReason (objects (snd dh) ! holder) = Some (reason li) \<longrightarrow>
            result = Inr ()) \<and>
         (expectedLostReason (objects (snd dh) ! holder) \<noteq> Some (reason li) \<longrightarrow>
            (\<exists>ex. result = Inl ex \<and>
               (\<not> instanceof_TestFailedButDeviceReusable ex \<longrightarrow>
                  holder \<notin> pooled dp' \<and>
                  (has_destroy rhost \<longrightarrow>
                     device (objects (snd dh) ! holder) \<in> set (destroy_calls h')))))"
proof -
  have wf: "well_formed dh" unfolding assms(1) using well_formed_initial by (rule run_wf)
  then obtain this where p: "fst dh = pool this" using assms(2) by (rule well_formed_pool)
  obtain r b where rt: "release_try rhost (objects (snd dh) ! holder) = (r, b)"
    by (cases "release_try rhost (objects (snd dh) ! holder)")
  have ex: "\<exists>ex. r = Inl ex"
  proof (cases r)
    case (Inr u)
    have "lostInfo b = None" using rt Inr by (auto dest: release_try_Inr)
    moreover have "objects h' ! holder = b\<lparr>state := free\<rparr>"
      using release_result [OF p assms(3) rt] assms(2,4) Inr by simp
    ultimately show ?thesis using assms(5) by simp
  qed simp
  then obtain ex where r: "r = Inl ex" by blast
  note t = release_after_throw [OF wf assms(2,3) rt [unfolded r] assms(4)]
  have li: "lostInfo b = Some li" using t(1) assms(5) by simp
  have eb: "expectedLostReason b = expectedLostReason (objects (snd dh) ! holder)"
    using release_try_expected [of rhost "objects (snd dh) ! holder"] rt by simp
  have e: "expectedDeviceLost b \<longleftrightarrow>
      expectedLostReason (objects (snd dh) ! holder) = Some (reason li)"
    using expectedDeviceLost_iff [OF li] eb by simp
  show ?thesis using t(2,3,4) e by auto
qed

theorem release_after_loss_witness:
  "expectedLostReason (objects (snd acquired_example) ! 0) \<noteq> Some destroyed \<and>
   fst (release lost_at_once acquired_example 0) = Inl (HostError ''OperationError'' ''lost'') \<and>
   0 \<notin> pooled (fst (snd (release lost_at_once acquired_example 0))) \<and>
   0 \<in> set (destroy_calls (snd (snd (release lost_at_once acquired_example 0))))"
proof -
  have h1: "acquired_example = run one_limit willing_host initial [Reserve None, Acquire 0]"
    by (simp add: acquired_example_def)
  have h2: "0 < length (objects (snd acquired_example))" by (simp add: acquired_example_eq)
  have h3: "state (objects (snd acquired_example) ! 0) \<noteq> free"
    by (simp add: acquired_example_eq)
  have h5: "lostInfo (objects \<lparr>objects = [\<lparr>device = 0, state = free,
                    lostInfo = Some \<lparr>reason = destroyed, message = ''gone''\<rparr>,
                    expectedLostReason = None\<rparr>],
       destroy_calls = [0], create_calls = 1, devices_created = 1\<rparr> ! 0) =
       Some \<lparr>reason = destroyed, message = ''gone''\<rparr>" by simp
  have h6: "expectedLostReason (objects (snd acquired_example) ! 0) \<noteq> Some destroyed"
    by (simp add: acquired_example_eq)
  have h7: "has_destroy lost_at_once" by (simp add: lost_at_once_def quiet_release_def)
  from release_after_loss [OF h1 h2 h3 release_lost_at_once h5]
  show ?thesis using h6 h7 unfolding release_lost_at_once by simp
qed

text \<open>
  The claim as the specification states it (the holder of a device lost unexpectedly is
  always removed) fails. Here the validation scope yields an error and the device is
  lost, with no loss expected, while the queue is awaited: \<open>release\<close> throws
  \<open>TestFailedButDeviceReusable\<close>, which the \<open>catch\<close> exempts from removal, so the holder
  stays in the pool with its lost device, \<open>destroy()\<close> is not called, and the next
  \<open>reserve()\<close> hands out that holder again.
\<close>

theorem release_keeps_lost_device:
  "expectedLostReason (objects (snd acquired_example) ! 0) = None \<and>
   release invalid_then_lost acquired_example 0 =
     (Inl (TestFailedButDeviceReusable ''Unexpected validation error occurred: bad''),
      pool \<lparr>poolSize = 20, unsupported = {}, holders = [([], 0)]\<rparr>,
      \<lparr>objects = [\<lparr>device = 0, state = free,
                    lostInfo = Some \<lparr>reason = unknown, message = ''crash''\<rparr>,
                    expectedLostReason = None\<rparr>],
       destroy_calls = [], create_calls = 1, devices_created = 1\<rparr>) \<and>
   fst (reserve one_limit willing_host (snd (release invalid_then_lost acquired_example 0)) None)
     = Inr 0"
  using release_invalid_then_lost reserve_after_unexpected_loss
  by (simp add: acquired_example_eq)

subsection \<open>Removal comes before the check for an expected loss\<close>

text \<open>
  C10: in every reachable state, when the \<open>try\<close> block of \<open>release\<close> throws an error
  other than \<open>TestFailedButDeviceReusable\<close>, the holder is deleted from the pool and
  \<open>destroy()\<close> is called on its device (when the device has that method) whether or not
  the loss was expected; when it was expected no error comes out of \<open>release\<close>, and the
  holder is removed all the same: no later \<open>reserve\<close>, after any further calls and with
  any host, returns it.
\<close>

theorem release_removes_before_expected_check:
  assumes "dh = run ci host initial ops"
    and "holder < length (objects (snd dh))"
    and "state (objects (snd dh) ! holder) \<noteq> free"
    and "fst (release_try rhost (objects (snd dh) ! holder)) = Inl ex"
    and "\<not> instanceof_TestFailedButDeviceReusable ex"
    and "release rhost dh holder = (result, dp', h')"
  shows "holder \<notin> pooled dp' \<and>
         (has_destroy rhost \<longrightarrow> device (objects (snd dh) ! holder) \<in> set (destroy_calls h')) \<and>
         (expectedDeviceLost (objects h' ! holder) \<longrightarrow> result = Inr ()) \<and>
         (\<not> expectedDeviceLost (objects h' ! holder) \<longrightarrow> result = Inl ex) \<and>
         (\<forall>host' ops' d. fst (reserve ci host' (run ci host' (dp', h') ops') d) \<noteq> Inr holder)"
proof -
  have wf: "well_formed dh" unfolding assms(1) using well_formed_initial by (rule run_wf)
  obtain b where rt: "release_try rhost (objects (snd dh) ! holder) = (Inl ex, b)"
    using assms(4) by (cases "release_try rhost (objects (snd dh) ! holder)") simp
  note t = release_after_throw [OF wf assms(2,3) rt assms(6)]
  have gone: "holder \<notin> pooled dp'" using t(3) assms(5) by simp
  obtain this' where p': "dp' = pool this'" using t(6) by blast
  have "fst (reserve ci host' (run ci host' (dp', h') ops') d) \<noteq> Inr holder" for host' ops' d
    by (rule never_reused [of "(dp', h')" this']) (use p' gone t(7) assms(2) in simp_all)
  then show ?thesis using gone t(1,2,4) assms(5) by simp
qed

theorem release_removes_before_expected_check_witness:
  "fst (release_try lost_at_once (objects (snd expecting_example) ! 0)) =
     Inl (HostError ''OperationError'' ''lost'') \<and>
   fst (release lost_at_once expecting_example 0) = Inr () \<and>
   0 \<notin> pooled (fst (snd (release lost_at_once expecting_example 0))) \<and>
   destroy_calls (snd (snd (release lost_at_once expecting_example 0))) = [0] \<and>
   fst (reserve one_limit willing_host (snd (release lost_at_once expecting_example 0)) None) = Inr 1"
proof -
  have h2: "0 < length (objects (snd expecting_example))" by (simp add: expecting_example_eq)
  have h3: "state (objects (snd expecting_example) ! 0) \<noteq> free"
    by (simp add: expecting_example_eq)
  have h4: "fst (release_try lost_at_once (objects (snd expecting_example) ! 0)) =
     Inl (HostError ''OperationError'' ''lost'')" by (simp add: release_try_expected_loss)
  have h5: "\<not> instanceof_TestFailedButDeviceReusable (HostError ''OperationError'' ''lost'')"
    by simp
  from release_removes_before_expected_check
    [OF expecting_example_run h2 h3 h4 h5 release_expected_loss]
  show ?thesis using h4 reserve_after_expected_loss unfolding release_expected_loss by simp
qed

subsection \<open>Unsupported descriptors are remembered\<close>

text \<open>
  C6: when \<open>getOrCreate\<close> attempts a construction for a descriptor (its key is not yet
  known to be unsupported and the search finds no holder) and \<open>DeviceHolder.create\<close> fails
  with \<open>FeaturesNotSupported\<close>, it throws \<open>SkipTestCase\<close> and the canonical key is in the
  set of unsupported keys afterwards; and after any further calls on the pool, with any
  host, \<open>getOrCreate\<close> for any descriptor with the same canonical key throws
  \<open>SkipTestCase\<close> and leaves the pool and the store as they are: no construction is
  attempted (\<open>create_calls\<close> is part of the store).
\<close>

theorem unsupported_key_is_cached:
  assumes "DeviceHolder_create host h (fst (canonicalizeDescriptor ci d)) =
             (Inl (FeaturesNotSupported m), h1)"
    and "snd (canonicalizeDescriptor ci d) \<notin> unsupported this"
    and "search_free (objects h) 0 (holders this) = None"
    and "getOrCreate ci host (this, h) d = (r, this', h')"
  shows "(\<exists>msg. r = Inl (SkipTestCase msg)) \<and>
         snd (canonicalizeDescriptor ci d) \<in> unsupported this' \<and>
         (\<forall>host' ops d'.
            snd (canonicalizeDescriptor ci d') = snd (canonicalizeDescriptor ci d) \<longrightarrow>
            (\<exists>this'' h'' msg.
               run ci host' (pool this', h') ops = (pool this'', h'') \<and>
               getOrCreate ci host' (this'', h'') d' = (Inl (SkipTestCase msg), this'', h'')))"
proof -
  let ?key = "snd (canonicalizeDescriptor ci d)"
  note g = getOrCreate_FeaturesNotSupported [OF assms(1-3), unfolded assms(4)]
  have r: "\<exists>msg. r = Inl (SkipTestCase msg)" using g by simp
  have k: "?key \<in> unsupported this'" using g by auto
  have later: "\<exists>this'' h'' msg.
        run ci host' (pool this', h') ops = (pool this'', h'') \<and>
        getOrCreate ci host' (this'', h'') d' = (Inl (SkipTestCase msg), this'', h'')"
    if same: "snd (canonicalizeDescriptor ci d') = ?key" for host' ops d'
  proof -
    have "evolves (pool this', h') (run ci host' (pool this', h') ops)"
      by (rule run_evolves [of _ this']) simp
    then obtain p1 this'' where e: "fst (pool this', h') = pool p1"
      "fst (run ci host' (pool this', h') ops) = pool this''"
      "unsupported p1 \<subseteq> unsupported this''"
      by (rule evolvesE)
    have "snd (canonicalizeDescriptor ci d') \<in> unsupported this''" using e(1,3) k same by auto
    from getOrCreate_unsupported [OF this]
    have "getOrCreate ci host' (this'', snd (run ci host' (pool this', h') ops)) d' =
      (Inl (SkipTestCase (''GPUDeviceDescriptor previously failed: '' @
             JSON_stringify_opt (fst (canonicalizeDescriptor ci d')))), this'',
       snd (run ci host' (pool this', h') ops))" .
    moreover have "run ci host' (pool this', h') ops =
      (pool this'', snd (run ci host' (pool this', h') ops))"
      using e(2) by (cases "run ci host' (pool this', h') ops") simp
    ultimately show ?thesis by blast
  qed
  show ?thesis using r k later by blast
qed

theorem unsupported_key_is_cached_witness:
  "(\<exists>msg. fst (getOrCreate one_limit bare_host (new_DeviceHolderPool kDevicePoolSize, snd initial)
               (Some timestamp_descriptor)) = Inl (SkipTestCase msg)) \<and>
   timestamp_key \<in> unsupported (fst (snd (getOrCreate one_limit bare_host
       (new_DeviceHolderPool kDevicePoolSize, snd initial) (Some timestamp_descriptor)))) \<and>
   (\<exists>msg. getOrCreate one_limit willing_host
       (snd (getOrCreate one_limit bare_host (new_DeviceHolderPool kDevicePoolSize, snd initial)
               (Some timestamp_descriptor)))
       (Some timestamp_descriptor') =
     (Inl (SkipTestCase msg),
      snd (getOrCreate one_limit bare_host (new_DeviceHolderPool kDevicePoolSize, snd initial)
             (Some timestamp_descriptor))))"
proof -
  let ?G = "getOrCreate one_limit bare_host (new_DeviceHolderPool kDevicePoolSize, snd initial)
              (Some timestamp_descriptor)"
  have h2: "snd (canonicalizeDescriptor one_limit (Some timestamp_descriptor)) \<notin>
      unsupported (new_DeviceHolderPool kDevicePoolSize)"
    by (simp add: new_DeviceHolderPool_def)
  have h3: "search_free (objects (snd initial)) 0 (holders (new_DeviceHolderPool kDevicePoolSize)) = None"
    by (simp add: new_DeviceHolderPool_def)
  have h4: "?G = (fst ?G, fst (snd ?G), snd (snd ?G))" by simp
  note t = unsupported_key_is_cached [OF create_on_bare_host h2 h3 h4]
  from t have a: "\<exists>msg. fst ?G = Inl (SkipTestCase msg)" by blast
  from t have b: "timestamp_key \<in> unsupported (fst (snd ?G))" by (simp add: timestamp_key_def)
  from t have "\<exists>this'' h'' msg.
       run one_limit willing_host (pool (fst (snd ?G)), snd (snd ?G)) [] = (pool this'', h'') \<and>
       getOrCreate one_limit willing_host (this'', h'') (Some timestamp_descriptor') =
         (Inl (SkipTestCase msg), this'', h'')"
    using timestamp_keys(1) by (simp add: timestamp_key_def)
  then have c: "\<exists>msg. getOrCreate one_limit willing_host (snd ?G) (Some timestamp_descriptor') =
     (Inl (SkipTestCase msg), snd ?G)"
    by (auto simp: run_def)
  show ?thesis using a b c by blast
qed

subsection \<open>The list of the pool is bounded\<close>

text \<open>
  C7: \<open>insertAndCleanUp\<close> appends the entry and, if the list is then longer than the
  capacity, removes its head and nothing else: on a list that was full (and not empty)
  the least recently used entry goes, the others stay in their order, and the new entry
  is last. The states of the holders play no part: \<open>insertAndCleanUp\<close> does not read the
  store. A list within the capacity stays within it, and in every state a run can reach
  the capacity of the pool is \<open>kDevicePoolSize\<close>, 20, and the list is no longer than that.
\<close>

theorem pool_never_exceeds_capacity:
  "holders (insertAndCleanUp this key holder) =
     (if length (holders this) < poolSize this then holders this @ [(key, holder)]
      else tl (holders this @ [(key, holder)])) \<and>
   poolSize (insertAndCleanUp this key holder) = poolSize this \<and>
   (length (holders this) \<le> poolSize this \<longrightarrow>
      length (holders (insertAndCleanUp this key holder)) \<le> poolSize this) \<and>
   (holders this \<noteq> [] \<and> poolSize this \<le> length (holders this) \<longrightarrow>
      holders (insertAndCleanUp this key holder) = tl (holders this) @ [(key, holder)]) \<and>
   (\<forall>this'. fst (run ci host initial ops) = pool this' \<longrightarrow>
      poolSize this' = kDevicePoolSize \<and> length (holders this') \<le> kDevicePoolSize)"
proof -
  have "bounded (run ci host initial ops)" using bounded_initial by (rule run_bounded)
  then have "\<forall>this'. fst (run ci host initial ops) = pool this' \<longrightarrow>
      poolSize this' = kDevicePoolSize \<and> length (holders this') \<le> kDevicePoolSize"
    by (auto simp: bounded_def)
  then show ?thesis by (auto simp: insertAndCleanUp_holders)
qed

theorem pool_never_exceeds_capacity_witness:
  "holders (insertAndCleanUp
      \<lparr>poolSize = 2, unsupported = {}, holders = [(''a'', 0), (''b'', 1)]\<rparr> ''c'' 2) =
     [(''b'', 1), (''c'', 2)] \<and>
   fst crowd = pool \<lparr>poolSize = 20, unsupported = {}, holders = map (Pair []) [1..<21]\<rparr> \<and>
   length (map (Pair ([]::string)) [1..<21]) \<le> kDevicePoolSize"
  using pool_never_exceeds_capacity
    [of "\<lparr>poolSize = 2, unsupported = {}, holders = [(''a'', 0), (''b'', 1)]\<rparr>" "''c''" 2
        one_limit willing_host "replicate 21 (Reserve None)"]
    crowd_eq
  by (simp add: crowd_def [symmetric])

text \<open>
  Eviction does not look at the state: after twenty-one reservations without a release
  the first holder, still reserved, is no longer in the list.
\<close>

lemma busy_holder_evicted:
  "state (objects (snd crowd) ! 0) = reserved \<and> 0 \<notin> pooled (fst crowd)"
proof -
  from crowd_eq have m: "map state (objects (snd crowd)) = replicate 21 reserved"
    and p: "fst crowd = pool \<lparr>poolSize = 20, unsupported = {}, holders = map (Pair []) [1..<21]\<rparr>"
    by simp_all
  have "length (map state (objects (snd crowd))) = 21" unfolding m by simp
  then have l: "0 < length (objects (snd crowd))" by simp
  have "state (objects (snd crowd) ! 0) = map state (objects (snd crowd)) ! 0"
    using l by (simp only: nth_map)
  also have "\<dots> = reserved" unfolding m by simp
  finally have "state (objects (snd crowd) ! 0) = reserved" .
  moreover have "0 \<notin> pooled (fst crowd)" unfolding p by (auto simp: pooled_def)
  ultimately show ?thesis by simp
qed

subsection \<open>Reuse of a free holder\<close>

text \<open>
  C1 does not hold of the code. Two tests have run at the same time, one on the default
  device and one on a device with the timestamp feature, and both holders are free again,
  the default one first in the list. A request for the timestamp descriptor, whose key is
  the key of the second holder, is answered with the first holder, whose key is the empty
  key of the default descriptor: the search takes the first free holder and never compares
  keys.
\<close>

theorem getOrCreate_ignores_key:
  "two_free_example =
     (pool \<lparr>poolSize = 20, unsupported = {}, holders = [([], 0), (timestamp_key, 1)]\<rparr>,
      \<lparr>objects = [\<lparr>device = 0, state = free, lostInfo = None, expectedLostReason = None\<rparr>,
                   \<lparr>device = 1, state = free, lostInfo = None, expectedLostReason = None\<rparr>],
       destroy_calls = [], create_calls = 2, devices_created = 2\<rparr>) \<and>
   snd (canonicalizeDescriptor one_limit (Some timestamp_descriptor)) = timestamp_key \<and>
   timestamp_key \<noteq> [] \<and>
   getOrCreate one_limit willing_host
     (\<lparr>poolSize = 20, unsupported = {}, holders = [([], 0), (timestamp_key, 1)]\<rparr>,
      snd two_free_example)
     (Some timestamp_descriptor) =
     (Inr 0,
      \<lparr>poolSize = 20, unsupported = {}, holders = [(timestamp_key, 1), ([], 0)]\<rparr>,
      snd two_free_example) \<and>
   fst (reserve one_limit willing_host two_free_example (Some timestamp_descriptor)) = Inr 0"
  unfolding two_free_example_eq using timestamp_keys(2)
  by (simp add: reserve_def initialize_def assert_def getOrCreate_def
        timestamp_key_def [symmetric] splice1_def)

end
